theory Spec2Isabelle
  imports Main "HOL-Library.Word"
begin

unbundle bit_operations_syntax

section \<open>Data model of main.cpp\<close>

text \<open>
  The program is one Arduino sketch: global variables, \<open>setup()\<close>, and \<open>loop()\<close>, which
  the runtime calls again and again. One call of \<open>loop()\<close> is a tick. The globals and the
  two output pins form the state; what the hardware returns during a tick (pin levels, the
  reader polls, the timer, the MQTT payloads) is the tick's input.
\<close>

type_synonym u8 = "8 word"
type_synonym u32 = "32 word"   \<comment> \<open>\<open>unsigned long\<close> and \<open>uint32_t\<close> on the ESP32\<close>
type_synonym uid = "u8 list"   \<comment> \<open>\<open>uint8_t[8]\<close>\<close>

datatype PuzzleState = Initializing | Unpowered | Powered | Solved | GameOver

datatype level = LOW | HIGH

datatype pin = beakerDoor | crystalDoor   \<comment> \<open>the two output pins (32 and 33)\<close>

text \<open>What the sketch does to the outside, in program order: pin writes and \<open>delay(ms)\<close>.\<close>

datatype event = DigitalWrite pin level | Delay nat

datatype pattern = none | flash | acceleratingSequence

datatype direction = forward | reverse

datatype ISO15693ErrorCode = ISO15693_EC_OK | EC_NO_CARD

text \<open>
  A \<open>NeoPatterns\<close> object. main.cpp reads and writes the public members \<open>ActivePattern\<close>
  and \<open>Color1\<close>; \<open>pixels\<close> is the colour buffer and \<open>shown\<close> the frame last committed
  by \<open>show()\<close>.
\<close>

record strip =
  ActivePattern :: pattern
  Color1 :: u32
  pixels :: "u32 list"
  shown :: "u32 list"

record state =
  puzzleState :: PuzzleState
  solvedMillis :: u32
  currentMillis :: u32
  lastUid :: "uid list"
  beakersCorrect :: bool
  alchemyPower :: bool
  doorClosed :: bool
  LS1 :: strip
  LS2 :: strip
  LS3 :: strip
  LS4 :: strip
  beakerDoor_out :: level
  crystalDoor_out :: level
  trace :: "event list"
  reads :: nat   \<comment> \<open>how many times main.cpp has called \<open>millis()\<close> so far\<close>

text \<open>
  The result of \<open>nfc[i].getInventory(thisUid)\<close>: the error code, and the bytes found in the
  local array \<open>thisUid\<close> after the call. The PN5180 driver writes the array only when it
  returns \<open>ISO15693_EC_OK\<close>; on any other code the array, a local without initialiser,
  holds whatever the stack held.
\<close>

record poll =
  rc :: ISO15693ErrorCode
  thisUid :: uid

record input =
  laserPin :: level                 \<comment> \<open>\<open>digitalRead(laserPin)\<close>\<close>
  limitSwitch :: level              \<comment> \<open>\<open>digitalRead(limitSwitch)\<close>\<close>
  getInventory :: "nat \<Rightarrow> poll"      \<comment> \<open>the poll of reader \<open>i\<close> in this tick\<close>
  millis :: "nat \<Rightarrow> u32"            \<comment> \<open>what the \<open>n\<close>-th call of \<open>millis()\<close> since boot returns\<close>
  mqtt :: "u8 list list"            \<comment> \<open>payloads \<open>client.loop()\<close> hands to \<open>callback\<close>\<close>

section \<open>Constants\<close>

definition numReaders :: nat where
  "numReaders = 2"

definition correctUid :: "uid list" where
  "correctUid =
     [[0x3C, 0x33, 0x13, 0x66, 0x08, 0x01, 0x04, 0xE0],
      [0x04, 0x3A, 0x13, 0x66, 0x08, 0x01, 0x04, 0xE0]]"

definition resetUid :: uid where
  "resetUid = [0x24, 0x43, 0x13, 0x66, 0x08, 0x01, 0x04, 0xE0]"

definition noUid :: uid where
  "noUid = [0, 0, 0, 0, 0, 0, 0, 0]"

definition Strip1Length :: nat where "Strip1Length = 27"
definition Strip1Start :: nat where "Strip1Start = 0"
definition Strip2Length :: nat where "Strip2Length = 8"
definition Strip2Start :: nat where "Strip2Start = 0"
definition Strip3Length :: nat where "Strip3Length = 22"
definition Strip3Start :: nat where "Strip3Start = 0"
definition Strip4Length :: nat where "Strip4Length = 8"
definition Strip4Start :: nat where "Strip4Start = 0"

section \<open>C library and Arduino primitives\<close>

text \<open>\<open>memcmp(a, b, n) == 0\<close>: the first \<open>n\<close> bytes agree.\<close>

definition memcmp_eq :: "u8 list \<Rightarrow> u8 list \<Rightarrow> nat \<Rightarrow> bool" where
  "memcmp_eq a b n = (take n a = take n b)"

definition memset :: "u8 list \<Rightarrow> u8 \<Rightarrow> nat \<Rightarrow> u8 list" where
  "memset dst v n = replicate n v @ drop n dst"

definition memcpy :: "u8 list \<Rightarrow> u8 list \<Rightarrow> nat \<Rightarrow> u8 list" where
  "memcpy dst src n = take n src @ drop n dst"

text \<open>\<open>tolower\<close> in the C locale: only \<open>A\<close>..\<open>Z\<close> (0x41..0x5A) change.\<close>

definition tolower :: "u8 \<Rightarrow> u8" where
  "tolower c = (if 0x41 \<le> c \<and> c \<le> 0x5A then c + 0x20 else c)"

text \<open>The bytes of a string literal, without the closing NUL.\<close>

definition lit :: "string \<Rightarrow> u8 list" where
  "lit s = map of_char s"

text \<open>A C string ends at its first NUL byte; \<open>strcmp(a, b) == 0\<close> compares up to there.\<close>

definition c_str :: "u8 list \<Rightarrow> u8 list" where
  "c_str s = takeWhile (\<lambda>c. c \<noteq> 0) s"

definition strcmp_eq :: "u8 list \<Rightarrow> u8 list \<Rightarrow> bool" where
  "strcmp_eq a b = (c_str a = c_str b)"

text \<open>Statements in sequence, and a statement under an \<open>if\<close> without \<open>else\<close>.\<close>

fun seq :: "('s \<Rightarrow> 's) list \<Rightarrow> 's \<Rightarrow> 's" where
  "seq [] s = s"
| "seq (f # fs) s = seq fs (f s)"

definition cond :: "('s \<Rightarrow> bool) \<Rightarrow> ('s \<Rightarrow> 's) \<Rightarrow> 's \<Rightarrow> 's" where
  "cond c f s = (if c s then f s else s)"

definition digitalWrite :: "pin \<Rightarrow> level \<Rightarrow> state \<Rightarrow> state" where
  "digitalWrite p v st =
     (case p of
        beakerDoor \<Rightarrow> st\<lparr>beakerDoor_out := v, trace := trace st @ [DigitalWrite p v]\<rparr>
      | crystalDoor \<Rightarrow> st\<lparr>crystalDoor_out := v, trace := trace st @ [DigitalWrite p v]\<rparr>)"

definition delay :: "nat \<Rightarrow> state \<Rightarrow> state" where
  "delay ms st = st\<lparr>trace := trace st @ [Delay ms]\<rparr>"

text \<open>\<open>Adafruit_NeoPixel::Color(r, g, b)\<close> packs the three bytes into \<open>0x00RRGGBB\<close>.\<close>

definition Color :: "u8 \<Rightarrow> u8 \<Rightarrow> u8 \<Rightarrow> u32" where
  "Color r g b = push_bit 16 (ucast r) OR push_bit 8 (ucast g) OR ucast b"

section \<open>The light strips (lights.h)\<close>

text \<open>
  Modelled from the spec: lights.h, which declares the class \<open>NeoPatterns\<close>, is not among
  the sources. The spec's \<open>setSolid\<close> is "immediate, synchronous fill; clears any running
  pattern"; \<open>ColorSet(color, start, length)\<close> fills the pixels \<open>start .. start+length-1\<close>
  that exist and sets the pattern tag to \<open>none\<close>.
\<close>

definition ColorSet :: "u32 \<Rightarrow> nat \<Rightarrow> nat \<Rightarrow> strip \<Rightarrow> strip" where
  "ColorSet color start len s =
     s\<lparr>ActivePattern := none,
       pixels := take start (pixels s)
                 @ replicate (min len (length (pixels s) - start)) color
                 @ drop (start + len) (pixels s)\<rparr>"

text \<open>
  Modelled from the spec: \<open>show()\<close> is the "commit frame" primitive; it makes the buffer
  the displayed frame.
\<close>

definition show_strip :: "strip \<Rightarrow> strip" where
  "show_strip s = s\<lparr>shown := pixels s\<rparr>"

text \<open>
  Modelled from the spec: \<open>startFlash\<close> "alternates colorA/colorB at intervalMs; runs
  indefinitely until replaced". \<open>Flash(color, interval, start, length, dir)\<close> makes
  \<open>flash\<close> the active pattern with primary colour \<open>color\<close>; main.cpp guards the call with
  \<open>ActivePattern != flash || Color1 != color\<close>. The interval, range and direction are
  kept inside the class and never read by main.cpp.
\<close>

definition Flash :: "u32 \<Rightarrow> nat \<Rightarrow> nat \<Rightarrow> nat \<Rightarrow> direction \<Rightarrow> strip \<Rightarrow> strip" where
  "Flash color interval start len dir s = s\<lparr>ActivePattern := flash, Color1 := color\<rparr>"

text \<open>
  Modelled from the spec: \<open>startAcceleratingSequence\<close> starts "a moving lit segment whose
  step interval decreases monotonically"; the call makes it the active pattern with primary
  colour \<open>color\<close>.
\<close>

definition AcceleratingSequence :: "u32 \<Rightarrow> nat \<Rightarrow> nat \<Rightarrow> direction \<Rightarrow> strip \<Rightarrow> strip" where
  "AcceleratingSequence color start len dir s =
     s\<lparr>ActivePattern := acceleratingSequence, Color1 := color\<rparr>"

text \<open>
  \<open>NeoPatterns::Update()\<close> is in lights.h as well. What it draws depends on timing state
  that main.cpp never sees, so every function below that calls it takes it as the parameter
  \<open>upd\<close>. Modelled from the spec: the spec's \<open>tick\<close> advances only a strip "whose next due
  timestamp has elapsed"; \<open>Update_not_due\<close> is a call made before the due time, or on a
  strip with no pattern, and changes nothing. It is the instance used at concrete inputs.
\<close>

definition Update_not_due :: "strip \<Rightarrow> strip" where
  "Update_not_due s = s"

section \<open>main.cpp\<close>

text \<open>\<open>showCurrentStatus()\<close> only prints to the serial port, which is not modelled.\<close>

definition showCurrentStatus :: "state \<Rightarrow> state" where
  "showCurrentStatus st = st"

text \<open>
  The block "if the strip's pattern is not \<open>none\<close>, fill it with black and show it", for
  each of the four strips. It opens the \<open>Initializing\<close>, \<open>Unpowered\<close> and \<open>GameOver\<close>
  cases of \<open>loop()\<close>.
\<close>

definition lights_off_if_active :: "state \<Rightarrow> state" where
  "lights_off_if_active =
     seq [
       cond (\<lambda>s. ActivePattern (LS1 s) \<noteq> none)
         (seq [LS1_update (ColorSet (Color 0 0 0) Strip1Start Strip1Length), LS1_update show_strip]),
       cond (\<lambda>s. ActivePattern (LS2 s) \<noteq> none)
         (seq [LS2_update (ColorSet (Color 0 0 0) Strip2Start Strip2Length), LS2_update show_strip]),
       cond (\<lambda>s. ActivePattern (LS3 s) \<noteq> none)
         (seq [LS3_update (ColorSet (Color 0 0 0) Strip3Start Strip3Length), LS3_update show_strip]),
       cond (\<lambda>s. ActivePattern (LS4 s) \<noteq> none)
         (seq [LS4_update (ColorSet (Color 0 0 0) Strip4Start Strip4Length), LS4_update show_strip])]"

definition onReset :: "state \<Rightarrow> state" where
  "onReset =
     seq [
       digitalWrite crystalDoor HIGH,
       delay 10,
       digitalWrite crystalDoor LOW,
       delay 10,
       digitalWrite beakerDoor LOW,
       LS1_update (\<lambda>s. s\<lparr>ActivePattern := none\<rparr>),
       LS2_update (\<lambda>s. s\<lparr>ActivePattern := none\<rparr>),
       LS3_update (\<lambda>s. s\<lparr>ActivePattern := none\<rparr>),
       LS4_update (\<lambda>s. s\<lparr>ActivePattern := none\<rparr>),
       delay 50,
       LS1_update (ColorSet (Color 0 0 0) Strip1Start Strip1Length),
       LS2_update (ColorSet (Color 0 0 0) Strip2Start Strip2Length),
       LS3_update (ColorSet (Color 0 0 0) Strip3Start Strip3Length),
       LS4_update (ColorSet (Color 0 0 0) Strip4Start Strip4Length),
       LS1_update show_strip,
       LS2_update show_strip,
       LS3_update show_strip,
       LS4_update show_strip,
       delay 50,
       (\<lambda>s. s\<lparr>puzzleState := Unpowered\<rparr>)]"

definition gameOver :: "state \<Rightarrow> state" where
  "gameOver =
     seq [
       digitalWrite beakerDoor LOW,
       (\<lambda>s. s\<lparr>puzzleState := GameOver\<rparr>)]"

text \<open>
  The wait in \<open>onSolve()\<close>:
  \<^verbatim>\<open>while (millis() - startTime < 5000) { LS2.Update(); LS3.Update(); LS4.Update(); }\<close>
  Every test of the condition is one call of \<open>millis()\<close>. The loop ends only when the timer
  shows 5000 ms or more elapsed; if it never does, the result is \<open>None\<close>.
\<close>

partial_function (option) busy_wait ::
  "(strip \<Rightarrow> strip) \<Rightarrow> (nat \<Rightarrow> u32) \<Rightarrow> u32 \<Rightarrow> state \<Rightarrow> state option" where
  "busy_wait upd clk startTime st =
     (if clk (reads st) - startTime < 5000
      then busy_wait upd clk startTime
             (seq [LS2_update upd, LS3_update upd, LS4_update upd] (st\<lparr>reads := Suc (reads st)\<rparr>))
      else Some (st\<lparr>reads := Suc (reads st)\<rparr>))"

text \<open>The statements of \<open>onSolve()\<close> after the wait.\<close>

definition onSolve_finish :: "(nat \<Rightarrow> u32) \<Rightarrow> state \<Rightarrow> state" where
  "onSolve_finish clk =
     seq [
       LS1_update (\<lambda>s. s\<lparr>ActivePattern := none\<rparr>),
       LS2_update (\<lambda>s. s\<lparr>ActivePattern := none\<rparr>),
       LS3_update (\<lambda>s. s\<lparr>ActivePattern := none\<rparr>),
       LS4_update (\<lambda>s. s\<lparr>ActivePattern := none\<rparr>),
       delay 50,
       LS1_update (ColorSet (Color 0 0 0) Strip1Start Strip1Length),
       LS2_update (ColorSet (Color 0 0 0) Strip2Start Strip2Length),
       LS3_update (ColorSet (Color 0 0 0) Strip3Start Strip3Length),
       LS4_update (ColorSet (Color 0 0 0) Strip4Start Strip4Length),
       LS1_update show_strip,
       LS2_update show_strip,
       LS3_update show_strip,
       LS4_update show_strip,
       delay 50,
       LS1_update (ColorSet (Color 0 255 0) Strip1Start Strip1Length),
       LS2_update (ColorSet (Color 0 255 0) Strip2Start Strip2Length),
       LS3_update (ColorSet (Color 128 0 128) Strip3Start Strip3Length),
       LS4_update (ColorSet (Color 0 255 0) Strip4Start Strip4Length),
       LS1_update show_strip,
       LS2_update show_strip,
       LS3_update show_strip,
       LS4_update show_strip,
       delay 50,
       digitalWrite crystalDoor HIGH,
       delay 10,
       digitalWrite crystalDoor LOW,
       (\<lambda>s. s\<lparr>solvedMillis := clk (reads s), reads := Suc (reads s)\<rparr>),
       (\<lambda>s. s\<lparr>puzzleState := Solved\<rparr>)]"

definition onSolve :: "(strip \<Rightarrow> strip) \<Rightarrow> (nat \<Rightarrow> u32) \<Rightarrow> state \<Rightarrow> state option" where
  "onSolve upd clk st =
     (let st1 = seq [
            LS2_update (AcceleratingSequence (Color 255 0 0) Strip2Start Strip2Length forward),
            LS3_update (AcceleratingSequence (Color 128 0 128) Strip3Start Strip3Length forward),
            LS4_update (AcceleratingSequence (Color 0 0 255) Strip4Start Strip4Length reverse)] st;
          startTime = clk (reads st1);
          st2 = st1\<lparr>reads := Suc (reads st1)\<rparr>
      in map_option (onSolve_finish clk) (busy_wait upd clk startTime st2))"

text \<open>\<open>callback\<close> of WifiFunctions.h. The payload has \<open>length\<close> bytes; the copy gets a NUL
  appended and every byte of the payload lowered.\<close>

definition callback :: "(strip \<Rightarrow> strip) \<Rightarrow> (nat \<Rightarrow> u32) \<Rightarrow> u8 list \<Rightarrow> state \<Rightarrow> state option" where
  "callback upd clk message st =
     (let messageArrived = map tolower message @ [0] in
      if strcmp_eq messageArrived (lit ''solve'') then onSolve upd clk st
      else if strcmp_eq messageArrived (lit ''reset'') then Some (onReset st)
      else Some st)"

text \<open>\<open>client.loop()\<close>: the payloads that arrived are handed to \<open>callback\<close> in order.\<close>

fun client_loop :: "(strip \<Rightarrow> strip) \<Rightarrow> (nat \<Rightarrow> u32) \<Rightarrow> u8 list list \<Rightarrow> state \<Rightarrow> state option" where
  "client_loop upd clk [] st = Some st"
| "client_loop upd clk (m # ms) st =
     (case callback upd clk m st of None \<Rightarrow> None | Some st' \<Rightarrow> client_loop upd clk ms st')"

text \<open>The body of the reader loop in \<open>case Powered\<close>, for reader \<open>i\<close>.\<close>

definition read_Powered :: "input \<Rightarrow> nat \<Rightarrow> state \<Rightarrow> state" where
  "read_Powered inp i st =
     (let p = getInventory inp i in
      if rc p \<noteq> ISO15693_EC_OK
      then (cond (\<lambda>s. \<not> memcmp_eq (lastUid s ! i) noUid 8)
              (seq [(\<lambda>s. s\<lparr>lastUid := (lastUid s)[i := memset (lastUid s ! i) 0 8]\<rparr>),
                    showCurrentStatus]) st)
           \<lparr>beakersCorrect := False\<rparr>
      else seq [
             cond (\<lambda>s. \<not> memcmp_eq (thisUid p) (lastUid s ! i) 8)
               (seq [(\<lambda>s. s\<lparr>lastUid := (lastUid s)[i := memcpy (lastUid s ! i) (thisUid p) 8]\<rparr>),
                     showCurrentStatus]),
             cond (\<lambda>s. \<not> memcmp_eq (thisUid p) (correctUid ! i) 8)
               (\<lambda>s. s\<lparr>beakersCorrect := False\<rparr>),
             cond (\<lambda>s. memcmp_eq (thisUid p) resetUid 8) onReset] st)"

text \<open>The body of the reader loop in \<open>case Solved\<close> and \<open>case GameOver\<close>: \<open>rc\<close> is assigned
  and not used.\<close>

definition read_reset_only :: "input \<Rightarrow> nat \<Rightarrow> state \<Rightarrow> state" where
  "read_reset_only inp i st =
     (let p = getInventory inp i in
      cond (\<lambda>s. memcmp_eq (thisUid p) resetUid 8) onReset st)"

definition case_Initializing :: "state \<Rightarrow> state" where
  "case_Initializing =
     seq [
       lights_off_if_active,
       digitalWrite beakerDoor LOW,
       (\<lambda>s. s\<lparr>puzzleState := Unpowered\<rparr>)]"

definition case_Unpowered :: "state \<Rightarrow> state" where
  "case_Unpowered =
     seq [
       lights_off_if_active,
       (\<lambda>s. if alchemyPower s then s\<lparr>puzzleState := Powered\<rparr> else s\<lparr>puzzleState := Unpowered\<rparr>),
       delay 100]"

text \<open>The power-loss block that ends \<open>case Powered\<close>.\<close>

definition power_loss :: "state \<Rightarrow> state" where
  "power_loss =
     seq [
       LS1_update (\<lambda>s. s\<lparr>ActivePattern := none\<rparr>),
       delay 50,
       LS1_update (ColorSet (Color 0 0 0) Strip1Start Strip1Length),
       LS1_update show_strip,
       LS1_update (\<lambda>s. s\<lparr>ActivePattern := none\<rparr>),
       delay 50,
       LS2_update (ColorSet (Color 0 0 0) Strip2Start Strip2Length),
       LS2_update show_strip,
       LS2_update (\<lambda>s. s\<lparr>ActivePattern := none\<rparr>),
       delay 50,
       LS3_update (ColorSet (Color 0 0 0) Strip3Start Strip3Length),
       LS3_update show_strip,
       LS3_update (\<lambda>s. s\<lparr>ActivePattern := none\<rparr>),
       delay 50,
       LS4_update (ColorSet (Color 0 0 0) Strip4Start Strip4Length),
       LS4_update show_strip,
       (\<lambda>s. s\<lparr>puzzleState := Unpowered\<rparr>)]"

text \<open>The start of \<open>case Powered\<close>: \<open>beakersCorrect = true\<close>, then the reader loop.\<close>

definition check_readers :: "input \<Rightarrow> state \<Rightarrow> state" where
  "check_readers inp =
     seq [
       (\<lambda>s. s\<lparr>beakersCorrect := True\<rparr>),
       fold (read_Powered inp) [0..<numReaders]]"

definition case_Powered :: "(strip \<Rightarrow> strip) \<Rightarrow> input \<Rightarrow> state \<Rightarrow> state option" where
  "case_Powered upd inp st =
     (let st1 = seq [
            check_readers inp,
            delay 50] st;
          r = (if \<not> beakersCorrect st1
               then Some (seq [
                      cond (\<lambda>s. ActivePattern (LS1 s) \<noteq> flash \<or> Color1 (LS1 s) \<noteq> Color 255 0 0)
                        (LS1_update (Flash (Color 255 0 0) 80 Strip1Start Strip1Length forward)),
                      showCurrentStatus,
                      delay 2000] st1)
               else if \<not> doorClosed st1
               then Some (seq [
                      cond (\<lambda>s. alchemyPower s \<and> beakersCorrect s) (digitalWrite beakerDoor HIGH),
                      cond (\<lambda>s. ActivePattern (LS1 s) \<noteq> flash \<or> Color1 (LS1 s) \<noteq> Color 0 255 0)
                        (LS1_update (Flash (Color 0 255 0) 80 Strip1Start Strip1Length forward))] st1)
               else if alchemyPower st1 \<and> beakersCorrect st1 \<and> doorClosed st1
               then onSolve upd (millis inp) st1
               else Some st1)
      in map_option (cond (\<lambda>s. \<not> alchemyPower s) power_loss) r)"

definition case_Solved :: "input \<Rightarrow> state \<Rightarrow> state" where
  "case_Solved inp =
     seq [
       (\<lambda>s. s\<lparr>currentMillis := millis inp (reads s), reads := Suc (reads s)\<rparr>),
       (\<lambda>s. if currentMillis s - solvedMillis s > 1800000
            then gameOver s
            else seq [
                   cond (\<lambda>s. Color1 (LS1 s) \<noteq> Color 0 255 0)
                     (seq [LS1_update (ColorSet (Color 0 255 0) Strip1Start Strip1Length),
                           LS1_update show_strip]),
                   cond (\<lambda>s. Color1 (LS2 s) \<noteq> Color 0 255 0)
                     (seq [LS2_update (ColorSet (Color 0 255 0) Strip2Start Strip2Length),
                           LS2_update show_strip]),
                   cond (\<lambda>s. Color1 (LS3 s) \<noteq> Color 128 0 128)
                     (seq [LS3_update (ColorSet (Color 128 0 128) Strip3Start Strip3Length),
                           LS3_update show_strip]),
                   cond (\<lambda>s. Color1 (LS4 s) \<noteq> Color 0 255 0)
                     (seq [LS4_update (ColorSet (Color 0 255 0) Strip4Start Strip4Length),
                           LS4_update show_strip])] s),
       fold (read_reset_only inp) [0..<numReaders]]"

definition case_GameOver :: "input \<Rightarrow> state \<Rightarrow> state" where
  "case_GameOver inp =
     seq [
       lights_off_if_active,
       fold (read_reset_only inp) [0..<numReaders],
       delay 1000]"

text \<open>One call of \<open>loop()\<close>.\<close>

definition loop :: "(strip \<Rightarrow> strip) \<Rightarrow> input \<Rightarrow> state \<Rightarrow> state option" where
  "loop upd inp st =
     (let st0 = st\<lparr>alchemyPower := (laserPin inp = LOW), doorClosed := (limitSwitch inp = LOW)\<rparr>;
          r = (case puzzleState st0 of
                 Initializing \<Rightarrow> Some (case_Initializing st0)
               | Unpowered \<Rightarrow> Some (case_Unpowered st0)
               | Powered \<Rightarrow> case_Powered upd inp st0
               | Solved \<Rightarrow> Some (case_Solved inp st0)
               | GameOver \<Rightarrow> Some (case_GameOver inp st0))
      in case r of
           None \<Rightarrow> None
         | Some st1 \<Rightarrow>
             map_option
               (seq [LS1_update upd, LS2_update upd, LS3_update upd, LS4_update upd])
               (client_loop upd (millis inp) (mqtt inp) (delay 50 st1)))"

text \<open>Successive ticks.\<close>

fun run :: "(strip \<Rightarrow> strip) \<Rightarrow> input list \<Rightarrow> state \<Rightarrow> state option" where
  "run upd [] st = Some st"
| "run upd (inp # inps) st =
     (case loop upd inp st of None \<Rightarrow> None | Some st' \<Rightarrow> run upd inps st')"

text \<open>
  The globals as C++ initialises them, and \<open>setup()\<close>. \<open>wifiSetup()\<close> and \<open>MQTTsetup()\<close>
  talk to the network only, \<open>pinMode\<close> and the reader initialisation touch none of the
  variables above; they are left out.
\<close>

definition new_strip :: "nat \<Rightarrow> strip" where
  "new_strip n = \<lparr>ActivePattern = none, Color1 = 0, pixels = replicate n 0, shown = replicate n 0\<rparr>"

definition power_on :: state where
  "power_on =
     \<lparr>puzzleState = Initializing, solvedMillis = 0, currentMillis = 0,
      lastUid = replicate numReaders noUid,
      beakersCorrect = False, alchemyPower = False, doorClosed = False,
      LS1 = new_strip Strip1Length, LS2 = new_strip Strip2Length,
      LS3 = new_strip Strip3Length, LS4 = new_strip Strip4Length,
      beakerDoor_out = LOW, crystalDoor_out = LOW, trace = [], reads = 0\<rparr>"

definition setup_sketch :: "state \<Rightarrow> state" where
  "setup_sketch =
     seq [
       delay 500,
       digitalWrite beakerDoor LOW,
       delay 500,
       digitalWrite crystalDoor LOW,
       delay 500,
       LS1_update show_strip, LS2_update show_strip, LS3_update show_strip, LS4_update show_strip,
       delay 50,
       LS1_update (ColorSet (Color 255 0 0) Strip1Start Strip1Length), delay 1000,
       LS1_update (ColorSet 0x0000FF Strip1Start Strip1Length), delay 1000,
       LS2_update (ColorSet 0xFF0000 Strip2Start Strip2Length), delay 1000,
       LS2_update (ColorSet 0x0000FF Strip2Start Strip2Length), delay 1000,
       LS3_update (ColorSet 0xFF0000 Strip3Start Strip3Length), delay 1000,
       LS3_update (ColorSet 0x0000FF Strip3Start Strip3Length), delay 1000,
       LS4_update (ColorSet 0xFF0000 Strip4Start Strip4Length), delay 1000,
       LS4_update (ColorSet 0x0000FF Strip4Start Strip4Length), delay 1000,
       LS1_update (ColorSet (Color 0 0 0) Strip1Start Strip1Length),
       LS2_update (ColorSet (Color 0 0 0) Strip2Start Strip2Length),
       LS3_update (ColorSet (Color 0 0 0) Strip3Start Strip3Length),
       LS4_update (ColorSet (Color 0 0 0) Strip4Start Strip4Length),
       LS1_update show_strip, LS2_update show_strip, LS3_update show_strip, LS4_update show_strip,
       delay 500]"

definition initial :: state where
  "initial = setup_sketch power_on"

text \<open>The states the sketch can be in between two ticks.\<close>

inductive reachable :: "(strip \<Rightarrow> strip) \<Rightarrow> state \<Rightarrow> bool" for upd where
  start: "reachable upd initial"
| tick: "reachable upd st \<Longrightarrow> loop upd inp st = Some st' \<Longrightarrow> reachable upd st'"

section \<open>Concrete inputs\<close>

text \<open>A reader that holds the beaker meant for it, and a reader with no tag in range
  (its buffer happens to hold zeros).\<close>

definition poll_correct :: "nat \<Rightarrow> poll" where
  "poll_correct i = \<lparr>rc = ISO15693_EC_OK, thisUid = correctUid ! i\<rparr>"

definition poll_none :: "nat \<Rightarrow> poll" where
  "poll_none i = \<lparr>rc = EC_NO_CARD, thisUid = noUid\<rparr>"

text \<open>A timer that returns the listed values, one per call of \<open>millis()\<close>.\<close>

definition clock_of :: "u32 list \<Rightarrow> nat \<Rightarrow> u32" where
  "clock_of ts n = (if n < length ts then ts ! n else 0)"

text \<open>The input of a tick in which no MQTT payload arrives.\<close>

definition sense :: "level \<Rightarrow> level \<Rightarrow> (nat \<Rightarrow> poll) \<Rightarrow> (nat \<Rightarrow> u32) \<Rightarrow> input" where
  "sense laser switch polls clk =
     \<lparr>laserPin = laser, limitSwitch = switch, getInventory = polls, millis = clk, mqtt = []\<rparr>"

text \<open>The time the \<open>Solved\<close> case computes and compares with the dwell.\<close>

definition elapsed :: "state \<Rightarrow> u32" where
  "elapsed st = currentMillis st - solvedMillis st"

text \<open>
  A game played to the solved state: first tick after boot; power arrives; both beakers
  are right with the door open, which engages the beaker lock; the door is closed.
  \<open>onSolve()\<close> then reads the timer three times (0, 5000 and 5210 ms).
\<close>

definition solve_clock :: "nat \<Rightarrow> u32" where
  "solve_clock = clock_of [0, 5000, 5210, 1805210]"

definition solve_ticks :: "input list" where
  "solve_ticks =
     [sense HIGH HIGH poll_none solve_clock,
      sense LOW HIGH poll_correct solve_clock,
      sense LOW HIGH poll_correct solve_clock,
      sense LOW LOW poll_correct solve_clock]"

definition solved_example :: state where
  "solved_example = the (run Update_not_due solve_ticks initial)"

definition late_clock :: "nat \<Rightarrow> u32" where
  "late_clock = clock_of [0, 5000, 5210, 1805211]"

section \<open>Notions used by the claims\<close>

text \<open>
  TokenMatcher of the spec. A reading is what a reader reports in a tick: the eight bytes
  of the identifier, or nothing when the read failed. \<open>classify_spec\<close> follows the
  spec's words: "if any reading equals the shared reset identifier, result is
  ResetRequested; otherwise AllCorrect only if every reader's current reading exactly
  equals that reader's configured correct identifier; any absent or mismatched reading
  yields Incorrect".
\<close>

datatype classification = AllCorrect | Incorrect | ResetRequested

definition reading :: "input \<Rightarrow> nat \<Rightarrow> uid option" where
  "reading inp i =
     (let p = getInventory inp i in
      if rc p = ISO15693_EC_OK then Some (take 8 (thisUid p)) else None)"

definition classify_spec :: "uid option list \<Rightarrow> classification" where
  "classify_spec rs =
     (if Some resetUid \<in> set rs then ResetRequested
      else if rs = map Some correctUid then AllCorrect
      else Incorrect)"

text \<open>
  What the reader loop of \<open>case Powered\<close> has decided when it ends: \<open>onReset()\<close> has
  run (it is the only statement of the loop that assigns \<open>puzzleState\<close>), or
  \<open>beakersCorrect\<close> is still true, or it is false.
\<close>

definition outcome :: "state \<Rightarrow> classification" where
  "outcome st =
     (if puzzleState st = Unpowered then ResetRequested
      else if beakersCorrect st then AllCorrect
      else Incorrect)"

text \<open>
  The crystal lock is a pulse: in a list of events every \<open>HIGH\<close> written to
  \<open>crystalDoor\<close> is followed at once by \<open>delay(10)\<close> and \<open>LOW\<close> written to it.
\<close>

function pulsed :: "event list \<Rightarrow> bool" where
  "pulsed [] = True"
| "pulsed (e # es) =
     (if e = DigitalWrite crystalDoor HIGH
      then take 2 es = [Delay 10, DigitalWrite crystalDoor LOW] \<and> pulsed (drop 2 es)
      else pulsed es)"
  by pat_completeness auto
termination
  by (relation "measure length") auto

text \<open>The levels written to a pin, in order.\<close>

fun writes_to :: "pin \<Rightarrow> event list \<Rightarrow> level list" where
  "writes_to p [] = []"
| "writes_to p (DigitalWrite q v # es) = (if q = p then v # writes_to p es else writes_to p es)"
| "writes_to p (Delay ms # es) = writes_to p es"

text \<open>The payload as the two \<open>strcmp\<close> calls of \<open>callback\<close> see it: lowered, and cut at
  its first NUL byte.\<close>

definition command_text :: "u8 list \<Rightarrow> u8 list" where
  "command_text message = c_str (map tolower message @ [0])"

text \<open>A strip is dark when its buffer and its displayed frame are all black.\<close>

definition extinguished :: "strip \<Rightarrow> bool" where
  "extinguished s = (list_all (\<lambda>p. p = 0) (pixels s) \<and> list_all (\<lambda>p. p = 0) (shown s))"

definition all_extinguished :: "state \<Rightarrow> bool" where
  "all_extinguished st =
     (extinguished (LS1 st) \<and> extinguished (LS2 st) \<and> extinguished (LS3 st) \<and> extinguished (LS4 st))"

definition patterns_stopped :: "state \<Rightarrow> bool" where
  "patterns_stopped st =
     (ActivePattern (LS1 st) = none \<and> ActivePattern (LS2 st) = none
      \<and> ActivePattern (LS3 st) = none \<and> ActivePattern (LS4 st) = none)"

text \<open>A reader on which the reset tag lies, and a reader whose read fails while its
  buffer still holds the bytes of the reset tag.\<close>

definition poll_reset :: "nat \<Rightarrow> poll" where
  "poll_reset i = \<lparr>rc = ISO15693_EC_OK, thisUid = resetUid\<rparr>"


text \<open>Two states of the game above: just powered, and powered with the beaker lock
  engaged.\<close>

definition powered_example :: state where
  "powered_example = the (run Update_not_due (take 2 solve_ticks) initial)"

definition engaged_example :: state where
  "engaged_example = the (run Update_not_due (take 3 solve_ticks) initial)"

text \<open>The scenarios of the spec: readers reporting \<open>[correct0, absent]\<close> and
  \<open>[reset_id, correct1]\<close>.\<close>

definition poll_first_only :: "nat \<Rightarrow> poll" where
  "poll_first_only i = (if i = 0 then poll_correct i else poll_none i)"

definition poll_reset_first :: "nat \<Rightarrow> poll" where
  "poll_reset_first i = (if i = 0 then poll_reset i else poll_correct i)"

text \<open>The crystal lock at rest: every pulse written so far is complete and the pin is low.\<close>

definition crystal_idle :: "state \<Rightarrow> bool" where
  "crystal_idle st = (pulsed (trace st) \<and> crystalDoor_out st = LOW)"

text \<open>The game above up to the engaged lock, then the laser is interrupted.\<close>

definition power_cut_ticks :: "input list" where
  "power_cut_ticks = take 3 solve_ticks @ [sense HIGH HIGH poll_correct solve_clock]"

definition unpowered_locked_example :: state where
  "unpowered_locked_example = the (run Update_not_due power_cut_ticks initial)"

text \<open>
  The beaker lock between two points of a run: \<open>ws\<close> are the levels written to the pin
  in between, in order, and the pin shows the last of them, or what it showed before when
  nothing was written.
\<close>

definition lock_step :: "state \<Rightarrow> level list \<Rightarrow> state \<Rightarrow> bool" where
  "lock_step st ws st' =
     (writes_to beakerDoor (trace st') = writes_to beakerDoor (trace st) @ ws
      \<and> beakerDoor_out st' = (if ws = [] then beakerDoor_out st else last ws))"

text \<open>
  The writers of the beaker lock that C10 names, and when each of them runs in a tick:
  the \<open>Initializing\<close> case always; the engage branch of \<open>Powered\<close> when both readings
  are correct, the door is open and power is present; \<open>gameOver()\<close> when the dwell has
  expired in \<open>Solved\<close>; \<open>onReset()\<close> once for every reader that reports the reset tag
  (in \<open>Powered\<close>, a successful read of it; in \<open>Solved\<close> and \<open>GameOver\<close>, a buffer that
  holds it) and once for every remote payload that reads "reset". \<open>Unpowered\<close> has no
  writer of its own.
\<close>

definition reset_tags :: "input \<Rightarrow> level list" where
  "reset_tags inp =
     concat (map (\<lambda>i. if reading inp i = Some resetUid then [LOW] else []) [0..<numReaders])"

definition reset_buffers :: "input \<Rightarrow> level list" where
  "reset_buffers inp =
     concat (map (\<lambda>i. if memcmp_eq (thisUid (getInventory inp i)) resetUid 8 then [LOW] else [])
       [0..<numReaders])"

definition remote_resets :: "u8 list list \<Rightarrow> level list" where
  "remote_resets ms =
     concat (map (\<lambda>m. if command_text m = lit ''reset'' then [LOW] else []) ms)"

definition beaker_writes :: "input \<Rightarrow> state \<Rightarrow> level list" where
  "beaker_writes inp st =
     (case puzzleState st of
        Initializing \<Rightarrow> [LOW]
      | Unpowered \<Rightarrow> []
      | Powered \<Rightarrow>
          reset_tags inp
          @ (if reading inp 0 = Some (correctUid ! 0) \<and> reading inp (Suc 0) = Some (correctUid ! Suc 0)
                \<and> limitSwitch inp \<noteq> LOW \<and> laserPin inp = LOW
             then [HIGH] else [])
      | Solved \<Rightarrow>
          (if 1800000 < millis inp (reads st) - solvedMillis st then [LOW] else [])
          @ reset_buffers inp
      | GameOver \<Rightarrow> reset_buffers inp)
     @ remote_resets (mqtt inp)"

text \<open>The pattern and primary colour of the beaker strip.\<close>

definition beaker_strip :: "state \<Rightarrow> pattern \<times> u32" where
  "beaker_strip st = (ActivePattern (LS1 st), Color1 (LS1 st))"

section \<open>Auxiliary facts\<close>

lemmas prim_defs =
  digitalWrite_def delay_def cond_def ColorSet_def show_strip_def Flash_def
  AcceleratingSequence_def showCurrentStatus_def

lemma readers_range: "[0..<numReaders] = [0, 1]"
  by (simp add: numReaders_def upt_rec)

lemma busy_wait_exit:
  "\<not> clk (reads st) - t0 < 5000 \<Longrightarrow> busy_wait upd clk t0 st = Some (st\<lparr>reads := Suc (reads st)\<rparr>)"
  by (subst busy_wait.simps) simp

lemma busy_wait_step:
  "clk (reads st) - t0 < 5000 \<Longrightarrow>
   busy_wait upd clk t0 st =
   busy_wait upd clk t0 (seq [LS2_update upd, LS3_update upd, LS4_update upd] (st\<lparr>reads := Suc (reads st)\<rparr>))"
  by (subst busy_wait.simps) simp

lemma busy_wait_terminates:
  "\<not> clk (reads st + d) - t0 < 5000 \<Longrightarrow> \<exists>st'. busy_wait upd clk t0 st = Some st'"
proof (induction d arbitrary: st)
  case 0
  then show ?case by (simp add: busy_wait_exit)
next
  case (Suc d)
  show ?case
  proof (cases "clk (reads st) - t0 < 5000")
    case False
    then show ?thesis by (simp add: busy_wait_exit)
  next
    case True
    let ?st = "seq [LS2_update upd, LS3_update upd, LS4_update upd] (st\<lparr>reads := Suc (reads st)\<rparr>)"
    have "\<not> clk (reads ?st + d) - t0 < 5000" using Suc.prems by simp
    then have "\<exists>st'. busy_wait upd clk t0 ?st = Some st'" by (rule Suc.IH[of ?st])
    then show ?thesis using True by (simp only: busy_wait_step)
  qed
qed

lemma busy_wait_shape:
  assumes "busy_wait upd clk t0 st = Some st'"
  shows "\<exists>r a b c. st' = st\<lparr>LS2 := a, LS3 := b, LS4 := c, reads := r\<rparr> \<and> reads st < r"
proof (rule busy_wait.raw_induct
    [where P = "\<lambda>upd clk t0 st st'. \<exists>r a b c. st' = st\<lparr>LS2 := a, LS3 := b, LS4 := c, reads := r\<rparr> \<and> reads st < r",
      OF _ assms])
  fix bw :: "(strip \<Rightarrow> strip) \<Rightarrow> (nat \<Rightarrow> u32) \<Rightarrow> u32 \<Rightarrow> state \<Rightarrow> state option"
  fix upd clk t0 st st'
  assume IH: "\<And>upd clk t0 st st'. bw upd clk t0 st = Some st' \<Longrightarrow>
     \<exists>r a b c. st' = st\<lparr>LS2 := a, LS3 := b, LS4 := c, reads := r\<rparr> \<and> reads st < r"
  assume step: "(if clk (reads st) - t0 < 5000
      then bw upd clk t0 (seq [LS2_update upd, LS3_update upd, LS4_update upd] (st\<lparr>reads := Suc (reads st)\<rparr>))
      else Some (st\<lparr>reads := Suc (reads st)\<rparr>)) = Some st'"
  show "\<exists>r a b c. st' = st\<lparr>LS2 := a, LS3 := b, LS4 := c, reads := r\<rparr> \<and> reads st < r"
  proof (cases "clk (reads st) - t0 < 5000")
    case False
    with step have "st' = st\<lparr>reads := Suc (reads st)\<rparr>" by simp
    then have "st' = st\<lparr>LS2 := LS2 st, LS3 := LS3 st, LS4 := LS4 st, reads := Suc (reads st)\<rparr> \<and> reads st < Suc (reads st)" by simp
    then show ?thesis by blast
  next
    case True
    let ?st = "seq [LS2_update upd, LS3_update upd, LS4_update upd] (st\<lparr>reads := Suc (reads st)\<rparr>)"
    from True step have "bw upd clk t0 ?st = Some st'" by simp
    from IH[OF this] obtain r a b c where
      *: "st' = ?st\<lparr>LS2 := a, LS3 := b, LS4 := c, reads := r\<rparr>" "reads ?st < r" by blast
    from * have "st' = st\<lparr>LS2 := a, LS3 := b, LS4 := c, reads := r\<rparr> \<and> reads st < r" by simp
    then show ?thesis by blast
  qed
qed

text \<open>What a completed \<open>onSolve()\<close> leaves behind.\<close>

lemma onSolve_Some:
  assumes "onSolve upd clk st = Some st'"
  shows "puzzleState st' = Solved"
    and "solvedMillis st' = clk (reads st' - 1)"
    and "reads st + 3 \<le> reads st'"
    and "beakerDoor_out st' = beakerDoor_out st"
    and "crystalDoor_out st' = LOW"
    and "trace st' = trace st @ [Delay 50, Delay 50, Delay 50,
           DigitalWrite crystalDoor HIGH, Delay 10, DigitalWrite crystalDoor LOW]"
    and "ActivePattern (LS1 st') = none \<and> ActivePattern (LS2 st') = none
         \<and> ActivePattern (LS3 st') = none \<and> ActivePattern (LS4 st') = none"
proof -
  let ?st2 = "(seq [
            LS2_update (AcceleratingSequence (Color 255 0 0) Strip2Start Strip2Length forward),
            LS3_update (AcceleratingSequence (Color 128 0 128) Strip3Start Strip3Length forward),
            LS4_update (AcceleratingSequence (Color 0 0 255) Strip4Start Strip4Length reverse)] st)
          \<lparr>reads := Suc (reads st)\<rparr>"
  from assms obtain w where w: "busy_wait upd clk (clk (reads st)) ?st2 = Some w"
    and st': "st' = onSolve_finish clk w"
    by (auto simp: onSolve_def Let_def)
  from busy_wait_shape[OF w] obtain r a b c where
    shape: "w = ?st2\<lparr>LS2 := a, LS3 := b, LS4 := c, reads := r\<rparr>" and r: "reads ?st2 < r"
    by blast
  show "puzzleState st' = Solved"
    by (simp add: st' onSolve_finish_def prim_defs)
  show "solvedMillis st' = clk (reads st' - 1)"
    by (simp add: st' onSolve_finish_def prim_defs)
  show "reads st + 3 \<le> reads st'"
    using r by (simp add: st' shape onSolve_finish_def prim_defs)
  show "beakerDoor_out st' = beakerDoor_out st"
    by (simp add: st' shape onSolve_finish_def prim_defs)
  show "crystalDoor_out st' = LOW"
    by (simp add: st' onSolve_finish_def prim_defs)
  show "trace st' = trace st @ [Delay 50, Delay 50, Delay 50,
           DigitalWrite crystalDoor HIGH, Delay 10, DigitalWrite crystalDoor LOW]"
    by (simp add: st' shape onSolve_finish_def prim_defs)
  show "ActivePattern (LS1 st') = none \<and> ActivePattern (LS2 st') = none
         \<and> ActivePattern (LS3 st') = none \<and> ActivePattern (LS4 st') = none"
    by (simp add: st' onSolve_finish_def prim_defs)
qed

lemma onSolve_terminates:
  assumes "\<not> clk (Suc (reads st) + d) - clk (reads st) < 5000"
  shows "\<exists>st'. onSolve upd clk st = Some st'"
proof -
  let ?st2 = "(seq [
            LS2_update (AcceleratingSequence (Color 255 0 0) Strip2Start Strip2Length forward),
            LS3_update (AcceleratingSequence (Color 128 0 128) Strip3Start Strip3Length forward),
            LS4_update (AcceleratingSequence (Color 0 0 255) Strip4Start Strip4Length reverse)] st)
          \<lparr>reads := Suc (reads st)\<rparr>"
  have "\<not> clk (reads ?st2 + d) - clk (reads st) < 5000" using assms by simp
  from busy_wait_terminates[of clk ?st2 d "clk (reads st)" upd, OF this] obtain w where
    "busy_wait upd clk (clk (reads st)) ?st2 = Some w" by blast
  then show ?thesis by (simp add: onSolve_def Let_def)
qed

lemma onReset_facts:
  "puzzleState (onReset st) = Unpowered"
  "beakerDoor_out (onReset st) = LOW"
  "crystalDoor_out (onReset st) = LOW"
  "ActivePattern (LS1 (onReset st)) = none"
  "ActivePattern (LS2 (onReset st)) = none"
  "ActivePattern (LS3 (onReset st)) = none"
  "ActivePattern (LS4 (onReset st)) = none"
  "trace (onReset st) = trace st @ [DigitalWrite crystalDoor HIGH, Delay 10,
      DigitalWrite crystalDoor LOW, Delay 10, DigitalWrite beakerDoor LOW, Delay 50, Delay 50]"
  "reads (onReset st) = reads st"
  "solvedMillis (onReset st) = solvedMillis st"
  by (simp_all add: onReset_def prim_defs)

lemmas case_defs =
  loop_def case_Initializing_def case_Unpowered_def case_Powered_def case_Solved_def
  case_GameOver_def lights_off_if_active_def power_loss_def read_Powered_def
  read_reset_only_def onReset_def gameOver_def readers_range memcmp_eq_def memset_def
  check_readers_def
  memcpy_def Color_def
  Strip1Length_def Strip2Length_def Strip3Length_def Strip4Length_def
  Strip1Start_def Strip2Start_def Strip3Start_def Strip4Start_def

lemmas example_defs =
  initial_def setup_sketch_def power_on_def new_strip_def sense_def poll_correct_def
  poll_none_def clock_of_def correctUid_def resetUid_def noUid_def Update_not_due_def
  numReaders_def upt_rec onSolve_def onSolve_finish_def busy_wait.simps

lemma solve_run:
  "run Update_not_due solve_ticks initial = Some solved_example"
  "puzzleState solved_example = Solved"
  "solvedMillis solved_example = 5210"
  "reads solved_example = 3"
  "beakerDoor_out solved_example = HIGH"
  by (simp_all add: solved_example_def solve_ticks_def solve_clock_def case_defs example_defs prim_defs)

section \<open>C5: expiry of the solved state\<close>

text \<open>
  C5, as stated: from \<open>Solved\<close> with no reset, the state becomes \<open>GameOver\<close> as soon as
  the time elapsed since the solve timestamp reaches 1,800,000 ms. The code compares with
  \<open>>\<close>, as its comment "more than 30 minutes" says: at exactly 1,800,000 ms the state
  is still \<open>Solved\<close>. The run below solves at 5210 ms and ticks again at 1,805,210 ms.
\<close>

theorem C5_counterexample:
  "map_option puzzleState
     (run Update_not_due (solve_ticks @ [sense LOW LOW poll_correct solve_clock]) initial)
     = Some Solved
   \<and> map_option elapsed
     (run Update_not_due (solve_ticks @ [sense LOW LOW poll_correct solve_clock]) initial)
     = Some 1800000"
  by (simp add: solve_ticks_def solve_clock_def elapsed_def case_defs example_defs prim_defs)

text \<open>
  C5, amended: from \<open>Solved\<close>, in a tick in which no reader buffer holds the reset
  identifier and no remote command arrives, the state becomes \<open>GameOver\<close> exactly when the
  timer reading minus the solve timestamp (32-bit unsigned) is more than 1,800,000 ms, and
  stays \<open>Solved\<close> otherwise; so 1,799,999 ms and 1,800,000 ms both stay \<open>Solved\<close>.
\<close>

theorem C5_dwell_expiry:
  assumes "puzzleState st = Solved"
    and "mqtt inp = []"
    and "\<not> memcmp_eq (thisUid (getInventory inp 0)) resetUid 8"
    and "\<not> memcmp_eq (thisUid (getInventory inp 1)) resetUid 8"
  shows "\<exists>st'. loop upd inp st = Some st' \<and>
           puzzleState st' =
             (if 1800000 < millis inp (reads st) - solvedMillis st then GameOver else Solved)"
  using assms
  by (simp add: loop_def case_Solved_def read_reset_only_def readers_range gameOver_def
      prim_defs Let_def if_distrib[of puzzleState])

theorem C5_dwell_expiry_witness:
  "puzzleState solved_example = Solved
   \<and> mqtt (sense LOW LOW poll_correct late_clock) = []
   \<and> \<not> memcmp_eq (thisUid (getInventory (sense LOW LOW poll_correct late_clock) 0)) resetUid 8
   \<and> \<not> memcmp_eq (thisUid (getInventory (sense LOW LOW poll_correct late_clock) 1)) resetUid 8
   \<and> (\<exists>st'. loop Update_not_due (sense LOW LOW poll_correct late_clock) solved_example = Some st'
          \<and> puzzleState st' = GameOver)"
proof -
  have h1: "puzzleState solved_example = Solved" by (rule solve_run)
  have h2: "mqtt (sense LOW LOW poll_correct late_clock) = []" by (simp add: sense_def)
  have h3: "\<not> memcmp_eq (thisUid (getInventory (sense LOW LOW poll_correct late_clock) 0)) resetUid 8"
    by (simp add: sense_def poll_correct_def correctUid_def resetUid_def memcmp_eq_def)
  have h4: "\<not> memcmp_eq (thisUid (getInventory (sense LOW LOW poll_correct late_clock) 1)) resetUid 8"
    by (simp add: sense_def poll_correct_def correctUid_def resetUid_def memcmp_eq_def)
  have t: "millis (sense LOW LOW poll_correct late_clock) (reads solved_example)
             - solvedMillis solved_example = 1800001"
    by (simp add: solve_run sense_def late_clock_def clock_of_def)
  from C5_dwell_expiry[OF h1 h2 h3 h4, of Update_not_due] t h1 h2 h3 h4
  show ?thesis by simp
qed

lemma onReset_frame:
  "beakersCorrect (onReset st) = beakersCorrect st"
  "alchemyPower (onReset st) = alchemyPower st"
  "doorClosed (onReset st) = doorClosed st"
  "lastUid (onReset st) = lastUid st"
  "currentMillis (onReset st) = currentMillis st"
  by (simp_all add: onReset_def prim_defs)

section \<open>C4: classification of the readers in the powered state\<close>

lemma take8_uids:
  "take 8 resetUid = resetUid"
  "take 8 (correctUid ! 0) = correctUid ! 0"
  "take 8 (correctUid ! Suc 0) = correctUid ! Suc 0"
  "correctUid ! 0 \<noteq> resetUid"
  "correctUid ! Suc 0 \<noteq> resetUid"
  by (simp_all add: resetUid_def correctUid_def)

lemma correctUid_entries: "correctUid = [correctUid ! 0, correctUid ! Suc 0]"
  by (simp add: correctUid_def)

lemma memcmp_reading:
  assumes "rc (getInventory inp i) = ISO15693_EC_OK" and "take 8 u = u"
  shows "memcmp_eq (thisUid (getInventory inp i)) u 8 = (reading inp i = Some u)"
  using assms by (simp add: memcmp_eq_def reading_def Let_def)

lemma read_Powered_puzzleState:
  "puzzleState (read_Powered inp i st) =
     (if reading inp i = Some resetUid then Unpowered else puzzleState st)"
proof (cases "rc (getInventory inp i) = ISO15693_EC_OK")
  case True
  then show ?thesis
    by (simp add: read_Powered_def Let_def cond_def memcmp_reading take8_uids onReset_facts
        showCurrentStatus_def if_distrib[of puzzleState])
next
  case False
  then show ?thesis
    by (simp add: read_Powered_def Let_def cond_def reading_def showCurrentStatus_def
        if_distrib[of puzzleState])
qed

lemma read_Powered_beakersCorrect:
  assumes "take 8 (correctUid ! i) = correctUid ! i"
  shows "beakersCorrect (read_Powered inp i st) =
     (beakersCorrect st \<and> reading inp i = Some (correctUid ! i))"
proof (cases "rc (getInventory inp i) = ISO15693_EC_OK")
  case True
  then show ?thesis
    using assms
    by (simp add: read_Powered_def Let_def cond_def memcmp_reading take8_uids onReset_frame
        showCurrentStatus_def if_distrib[of beakersCorrect])
next
  case False
  then show ?thesis
    by (simp add: read_Powered_def Let_def cond_def reading_def showCurrentStatus_def)
qed

text \<open>
  C4: the reader loop of \<open>case Powered\<close> classifies the two readings as the spec's
  TokenMatcher does. A reading equal to the reset identifier makes it call \<open>onReset()\<close>,
  whatever the other reader reports; otherwise \<open>beakersCorrect\<close> stays true only if each
  reader reports exactly its own correct identifier, and a failed read or another
  identifier makes it false.
\<close>

theorem C4_classification:
  assumes "puzzleState st = Powered"
  shows "outcome (check_readers inp st) = classify_spec (map (reading inp) [0..<numReaders])"
proof -
  let ?r0 = "reading inp 0" and ?r1 = "reading inp (Suc 0)"
  have run: "check_readers inp st =
      read_Powered inp (Suc 0) (read_Powered inp 0 (st\<lparr>beakersCorrect := True\<rparr>))"
    by (simp add: check_readers_def readers_range)
  have P: "puzzleState (check_readers inp st) =
      (if ?r0 = Some resetUid \<or> ?r1 = Some resetUid then Unpowered else Powered)"
    by (simp add: run read_Powered_puzzleState assms)
  have B: "beakersCorrect (check_readers inp st) =
      (?r0 = Some (correctUid ! 0) \<and> ?r1 = Some (correctUid ! Suc 0))"
    by (simp add: run read_Powered_beakersCorrect take8_uids)
  have "map Some correctUid = [Some (correctUid ! 0), Some (correctUid ! Suc 0)]"
    by (subst correctUid_entries) simp
  then have C: "classify_spec [?r0, ?r1] =
      (if ?r0 = Some resetUid \<or> ?r1 = Some resetUid then ResetRequested
       else if ?r0 = Some (correctUid ! 0) \<and> ?r1 = Some (correctUid ! Suc 0) then AllCorrect
       else Incorrect)"
    by (simp add: classify_spec_def)
  have R: "map (reading inp) [0..<numReaders] = [?r0, ?r1]"
    by (simp add: readers_range)
  show ?thesis
    unfolding R C outcome_def P B using take8_uids(4,5) by auto
qed

lemma powered_example_facts:
  "run Update_not_due (take 2 solve_ticks) initial = Some powered_example"
  "puzzleState powered_example = Powered"
  "beakerDoor_out powered_example = LOW"
  "reads powered_example = 0"
  by (simp_all add: powered_example_def solve_ticks_def solve_clock_def case_defs example_defs prim_defs)

lemma engaged_example_facts:
  "run Update_not_due (take 3 solve_ticks) initial = Some engaged_example"
  "puzzleState engaged_example = Powered"
  "beakerDoor_out engaged_example = HIGH"
  "reads engaged_example = 0"
  by (simp_all add: engaged_example_def solve_ticks_def solve_clock_def case_defs example_defs prim_defs)

theorem C4_classification_witness:
  "puzzleState powered_example = Powered
   \<and> outcome (check_readers (sense LOW HIGH poll_first_only solve_clock) powered_example) = Incorrect
   \<and> outcome (check_readers (sense LOW HIGH poll_reset_first solve_clock) powered_example)
       = ResetRequested"
proof -
  have h: "puzzleState powered_example = Powered" by (rule powered_example_facts)
  have a: "classify_spec (map (reading (sense LOW HIGH poll_first_only solve_clock)) [0..<numReaders])
      = Incorrect"
    by (simp add: readers_range classify_spec_def reading_def sense_def poll_first_only_def
        poll_correct_def poll_none_def correctUid_def resetUid_def)
  have b: "classify_spec (map (reading (sense LOW HIGH poll_reset_first solve_clock)) [0..<numReaders])
      = ResetRequested"
    by (simp add: readers_range classify_spec_def reading_def sense_def poll_reset_first_def
        poll_correct_def poll_reset_def correctUid_def resetUid_def)
  from C4_classification[OF h, of "sense LOW HIGH poll_first_only solve_clock"]
       C4_classification[OF h, of "sense LOW HIGH poll_reset_first solve_clock"] a b h
  show ?thesis by simp
qed

lemma read_Powered_frame:
  "alchemyPower (read_Powered inp i st) = alchemyPower st"
  "doorClosed (read_Powered inp i st) = doorClosed st"
  "reads (read_Powered inp i st) = reads st"
  "solvedMillis (read_Powered inp i st) = solvedMillis st"
  by (simp_all add: read_Powered_def Let_def cond_def showCurrentStatus_def onReset_frame
      onReset_facts if_distrib[of alchemyPower] if_distrib[of doorClosed] if_distrib[of reads]
      if_distrib[of solvedMillis])

lemma check_readers_frame:
  "alchemyPower (check_readers inp st) = alchemyPower st"
  "doorClosed (check_readers inp st) = doorClosed st"
  "reads (check_readers inp st) = reads st"
  "solvedMillis (check_readers inp st) = solvedMillis st"
  by (simp_all add: check_readers_def readers_range read_Powered_frame)

lemma check_readers_sel:
  "puzzleState (check_readers inp st) =
     (if reading inp 0 = Some resetUid \<or> reading inp (Suc 0) = Some resetUid
      then Unpowered else puzzleState st)"
  "beakersCorrect (check_readers inp st) =
     (reading inp 0 = Some (correctUid ! 0) \<and> reading inp (Suc 0) = Some (correctUid ! Suc 0))"
  by (simp_all add: check_readers_def readers_range read_Powered_puzzleState
      read_Powered_beakersCorrect take8_uids)

lemma onSolve_frame:
  assumes "onSolve upd clk st = Some st'"
  shows "alchemyPower st' = alchemyPower st" and "doorClosed st' = doorClosed st"
    and "beakersCorrect st' = beakersCorrect st"
proof -
  let ?st2 = "(seq [
            LS2_update (AcceleratingSequence (Color 255 0 0) Strip2Start Strip2Length forward),
            LS3_update (AcceleratingSequence (Color 128 0 128) Strip3Start Strip3Length forward),
            LS4_update (AcceleratingSequence (Color 0 0 255) Strip4Start Strip4Length reverse)] st)
          \<lparr>reads := Suc (reads st)\<rparr>"
  from assms obtain w where w: "busy_wait upd clk (clk (reads st)) ?st2 = Some w"
    and st': "st' = onSolve_finish clk w"
    by (auto simp: onSolve_def Let_def)
  from busy_wait_shape[OF w] obtain r a b c where
    shape: "w = ?st2\<lparr>LS2 := a, LS3 := b, LS4 := c, reads := r\<rparr>"
    by blast
  show "alchemyPower st' = alchemyPower st" "doorClosed st' = doorClosed st"
    "beakersCorrect st' = beakersCorrect st"
    by (simp_all add: st' shape onSolve_finish_def prim_defs)
qed

lemma run_append:
  "run upd (xs @ ys) st = (case run upd xs st of None \<Rightarrow> None | Some s \<Rightarrow> run upd ys s)"
  by (induction xs arbitrary: st) (simp_all split: option.splits)

section \<open>C3: the solve edge\<close>

lemma busy_wait_waited:
  assumes "busy_wait upd clk t0 st = Some st'"
  shows "\<not> clk (reads st' - 1) - t0 < 5000"
proof (rule busy_wait.raw_induct
    [where P = "\<lambda>upd clk t0 st st'. \<not> clk (reads st' - 1) - t0 < 5000", OF _ assms])
  fix bw :: "(strip \<Rightarrow> strip) \<Rightarrow> (nat \<Rightarrow> u32) \<Rightarrow> u32 \<Rightarrow> state \<Rightarrow> state option"
  fix upd clk t0 st st'
  assume IH: "\<And>upd clk t0 st st'. bw upd clk t0 st = Some st' \<Longrightarrow>
     \<not> clk (reads st' - 1) - t0 < 5000"
  assume step: "(if clk (reads st) - t0 < 5000
      then bw upd clk t0 (seq [LS2_update upd, LS3_update upd, LS4_update upd] (st\<lparr>reads := Suc (reads st)\<rparr>))
      else Some (st\<lparr>reads := Suc (reads st)\<rparr>)) = Some st'"
  show "\<not> clk (reads st' - 1) - t0 < 5000"
  proof (cases "clk (reads st) - t0 < 5000")
    case False
    with step have "st' = st\<lparr>reads := Suc (reads st)\<rparr>" by simp
    with False show ?thesis by simp
  next
    case True
    with step have "bw upd clk t0
        (seq [LS2_update upd, LS3_update upd, LS4_update upd] (st\<lparr>reads := Suc (reads st)\<rparr>))
        = Some st'" by simp
    from IH[OF this] show ?thesis .
  qed
qed

lemma onSolve_waited:
  assumes "onSolve upd clk st = Some st'"
  shows "\<not> clk (reads st' - 2) - clk (reads st) < 5000"
proof -
  let ?st2 = "(seq [
            LS2_update (AcceleratingSequence (Color 255 0 0) Strip2Start Strip2Length forward),
            LS3_update (AcceleratingSequence (Color 128 0 128) Strip3Start Strip3Length forward),
            LS4_update (AcceleratingSequence (Color 0 0 255) Strip4Start Strip4Length reverse)] st)
          \<lparr>reads := Suc (reads st)\<rparr>"
  from assms obtain w where w: "busy_wait upd clk (clk (reads st)) ?st2 = Some w"
    and st': "st' = onSolve_finish clk w"
    by (auto simp: onSolve_def Let_def)
  have "reads st' = Suc (reads w)"
    by (simp add: st' onSolve_finish_def prim_defs)
  with busy_wait_waited[OF w] show ?thesis
    by (simp add: numeral_2_eq_2)
qed

text \<open>
  C3, as stated: from \<open>Powered\<close>, a tick with both readers correct, the door switch and
  power asserted ends in \<open>Solved\<close> with the solve timestamp equal to that tick's time.
  In the tick below the timer shows 0 ms when the tick's first \<open>millis()\<close> call is made,
  but \<open>onSolve()\<close> stores the value it reads after its wait of 5000 ms and its delays:
  the timestamp is 5210. And when the payload "reset" arrives in the same tick,
  \<open>client.loop()\<close> at the end of \<open>loop()\<close> runs \<open>onReset()\<close>: the tick ends in
  \<open>Unpowered\<close>, not \<open>Solved\<close>.
\<close>

theorem C3_counterexample:
  "millis (sense LOW LOW poll_correct solve_clock) (reads engaged_example) = 0
   \<and> map_option puzzleState
       (loop Update_not_due (sense LOW LOW poll_correct solve_clock) engaged_example)
     = Some Solved
   \<and> map_option solvedMillis
       (loop Update_not_due (sense LOW LOW poll_correct solve_clock) engaged_example)
     = Some 5210
   \<and> map_option puzzleState
       (loop Update_not_due ((sense LOW LOW poll_correct solve_clock)\<lparr>mqtt := [lit ''reset'']\<rparr>)
          engaged_example)
     = Some Unpowered"
  by (simp add: engaged_example_def solve_ticks_def solve_clock_def lit_def tolower_def
      strcmp_eq_def c_str_def callback_def case_defs example_defs prim_defs)

text \<open>
  C3, amended: from \<open>Powered\<close>, a tick in which both readers return exactly their correct
  identifiers, the door switch and power are asserted and no remote command arrives ends
  in \<open>Solved\<close>, once the timer shows the 5000 ms that the solve sequence waits for. The
  tick calls \<open>millis()\<close> at least three times. The solve timestamp is the last value read,
  when the solve sequence has ended; the value read just before it, which ended the wait,
  is 5000 ms or more (32-bit unsigned difference) past the first value of the tick.
\<close>

theorem C3_solve_edge:
  assumes "puzzleState st = Powered"
    and "laserPin inp = LOW" and "limitSwitch inp = LOW"
    and "reading inp 0 = Some (correctUid ! 0)"
    and "reading inp (Suc 0) = Some (correctUid ! Suc 0)"
    and "mqtt inp = []"
    and "\<not> millis inp (Suc (reads st) + d) - millis inp (reads st) < 5000"
  shows "\<exists>st'. loop upd inp st = Some st' \<and> puzzleState st' = Solved
           \<and> reads st + 3 \<le> reads st'
           \<and> solvedMillis st' = millis inp (reads st' - 1)
           \<and> \<not> millis inp (reads st' - 2) - millis inp (reads st) < 5000"
proof -
  let ?st0 = "st\<lparr>alchemyPower := True, doorClosed := True\<rparr>"
  let ?st1 = "delay 50 (check_readers inp ?st0)"
  have sel: "beakersCorrect ?st1" "alchemyPower ?st1" "doorClosed ?st1" "reads ?st1 = reads st"
    using assms(4,5)
    by (simp_all add: delay_def check_readers_sel check_readers_frame)
  have "\<not> millis inp (Suc (reads ?st1) + d) - millis inp (reads ?st1) < 5000"
    using assms(7) sel(4) by simp
  from onSolve_terminates[of "millis inp" ?st1 d upd, OF this]
  obtain w where w: "onSolve upd (millis inp) ?st1 = Some w" by blast
  have pw: "alchemyPower w" using onSolve_frame(1)[OF w] sel(2) by simp
  have "case_Powered upd inp ?st0 = Some w"
    using sel w pw by (simp add: case_Powered_def Let_def cond_def)
  then have "loop upd inp st =
      Some (seq [LS1_update upd, LS2_update upd, LS3_update upd, LS4_update upd] (delay 50 w))"
    using assms(1,2,3,6) by (simp add: loop_def)
  moreover have "puzzleState w = Solved" "solvedMillis w = millis inp (reads w - 1)"
    "reads ?st1 + 3 \<le> reads w"
    "\<not> millis inp (reads w - 2) - millis inp (reads ?st1) < 5000"
    using onSolve_Some(1,2,3)[OF w] onSolve_waited[OF w] by simp_all
  ultimately show ?thesis
    using sel(4) by (simp add: delay_def)
qed

theorem C3_solve_edge_witness:
  "puzzleState engaged_example = Powered
   \<and> laserPin (sense LOW LOW poll_correct solve_clock) = LOW
   \<and> limitSwitch (sense LOW LOW poll_correct solve_clock) = LOW
   \<and> reading (sense LOW LOW poll_correct solve_clock) 0 = Some (correctUid ! 0)
   \<and> reading (sense LOW LOW poll_correct solve_clock) (Suc 0) = Some (correctUid ! Suc 0)
   \<and> mqtt (sense LOW LOW poll_correct solve_clock) = []
   \<and> \<not> millis (sense LOW LOW poll_correct solve_clock) (Suc (reads engaged_example) + 0)
         - millis (sense LOW LOW poll_correct solve_clock) (reads engaged_example) < 5000
   \<and> (\<exists>st'. loop Update_not_due (sense LOW LOW poll_correct solve_clock) engaged_example = Some st'
          \<and> puzzleState st' = Solved \<and> solvedMillis st' = 5210)"
proof -
  let ?inp = "sense LOW LOW poll_correct solve_clock"
  have h1: "puzzleState engaged_example = Powered" by (rule engaged_example_facts)
  have h2: "laserPin ?inp = LOW" and h3: "limitSwitch ?inp = LOW" and h6: "mqtt ?inp = []"
    by (simp_all add: sense_def)
  have h4: "reading ?inp 0 = Some (correctUid ! 0)"
    and h5: "reading ?inp (Suc 0) = Some (correctUid ! Suc 0)"
    by (simp_all add: reading_def sense_def poll_correct_def correctUid_def)
  have h7: "\<not> millis ?inp (Suc (reads engaged_example) + 0) - millis ?inp (reads engaged_example) < 5000"
    by (simp add: engaged_example_facts sense_def solve_clock_def clock_of_def)
  from C3_solve_edge[OF h1 h2 h3 h4 h5 h6 h7, of Update_not_due]
  obtain st' where st': "loop Update_not_due ?inp engaged_example = Some st'"
    "puzzleState st' = Solved" by blast
  have "solve_ticks = take 3 solve_ticks @ [?inp]"
    by (simp add: solve_ticks_def)
  then have "run Update_not_due solve_ticks initial = Some st'"
    using st'(1) engaged_example_facts(1)
      run_append[of Update_not_due "take 3 solve_ticks" "[?inp]" initial]
    by simp
  then have "st' = solved_example" using solve_run(1) by simp
  then have "solvedMillis st' = 5210" by (simp add: solve_run)
  with st' h1 h2 h3 h4 h5 h6 h7 show ?thesis by blast
qed

section \<open>C9: remote commands\<close>

lemma strcmp_command:
  "strcmp_eq (map tolower m @ [0]) (lit ''solve'') = (command_text m = lit ''solve'')"
  "strcmp_eq (map tolower m @ [0]) (lit ''reset'') = (command_text m = lit ''reset'')"
  by (simp_all add: strcmp_eq_def command_text_def c_str_def lit_def)

text \<open>
  C9, as stated: exactly the payload "solve" (after lowering) forces the solve sequence
  and any other payload changes nothing. \<open>callback\<close> compares with \<open>strcmp\<close>, which
  stops at the first NUL byte, while the payload is \<open>length\<close> arbitrary bytes. The
  seven bytes \<open>s o l v e NUL !\<close> are not "solve", yet a tick that receives them ends in
  \<open>Solved\<close>; the same tick without the payload ends in \<open>Unpowered\<close>.
\<close>

theorem C9_counterexample:
  "map tolower (lit ''solve'' @ [0, 0x21]) \<noteq> lit ''solve''
   \<and> map_option puzzleState
       (loop Update_not_due
          ((sense HIGH HIGH poll_none solve_clock)\<lparr>mqtt := [lit ''solve'' @ [0, 0x21]]\<rparr>) initial)
     = Some Solved
   \<and> map_option puzzleState
       (loop Update_not_due (sense HIGH HIGH poll_none solve_clock) initial)
     = Some Unpowered"
  by (simp add: lit_def tolower_def strcmp_eq_def c_str_def callback_def solve_clock_def
      case_defs example_defs prim_defs)

text \<open>
  C9, amended: the payload is lowered byte by byte and read as a C string, that is up to
  its first NUL byte if it has one. If that text is "solve", \<open>callback\<close> is \<open>onSolve()\<close>
  whatever the sensors and the state are, and leaves the state \<open>Solved\<close> (it returns once
  the timer shows the 5000 ms of the wait). If it is "reset", \<open>callback\<close> is \<open>onReset()\<close>,
  the very function the reader loops call on the reset tag, and leaves the state
  \<open>Unpowered\<close>. With any other text the state is unchanged.
\<close>

theorem C9_remote_command:
  "(command_text m = lit ''solve'' \<longrightarrow>
      callback upd clk m st = onSolve upd clk st
      \<and> (\<forall>st'. callback upd clk m st = Some st' \<longrightarrow> puzzleState st' = Solved)
      \<and> (\<not> clk (Suc (reads st) + d) - clk (reads st) < 5000 \<longrightarrow>
           (\<exists>st'. callback upd clk m st = Some st')))
   \<and> (command_text m = lit ''reset'' \<longrightarrow>
      callback upd clk m st = Some (onReset st) \<and> puzzleState (onReset st) = Unpowered
      \<and> (memcmp_eq (thisUid (getInventory inp i)) resetUid 8 \<longrightarrow>
           Some (read_reset_only inp i st) = callback upd clk m st))
   \<and> (command_text m \<noteq> lit ''solve'' \<and> command_text m \<noteq> lit ''reset'' \<longrightarrow>
      callback upd clk m st = Some st)"
proof -
  have ne: "lit ''reset'' \<noteq> lit ''solve''" by (simp add: lit_def)
  have solve: "callback upd clk m st = onSolve upd clk st" if "command_text m = lit ''solve''"
    using that by (simp add: callback_def strcmp_command Let_def)
  have reset: "callback upd clk m st = Some (onReset st)" if "command_text m = lit ''reset''"
    using that ne by (simp add: callback_def strcmp_command Let_def)
  have other: "callback upd clk m st = Some st"
    if "command_text m \<noteq> lit ''solve''" "command_text m \<noteq> lit ''reset''"
    using that by (simp add: callback_def strcmp_command Let_def)
  show ?thesis
    using solve reset other onSolve_Some(1)[of upd clk st] onSolve_terminates[of clk st d upd]
    by (simp add: onReset_facts read_reset_only_def cond_def)
qed

theorem C9_remote_command_witness:
  "command_text (lit ''SoLvE'') = lit ''solve''
   \<and> \<not> solve_clock (Suc (reads powered_example) + 0) - solve_clock (reads powered_example) < 5000
   \<and> (\<exists>st'. callback Update_not_due solve_clock (lit ''SoLvE'') powered_example = Some st'
          \<and> puzzleState st' = Solved)
   \<and> command_text (lit ''RESET'') = lit ''reset''
   \<and> callback Update_not_due solve_clock (lit ''RESET'') powered_example
       = Some (onReset powered_example)
   \<and> command_text (lit ''open'') \<noteq> lit ''solve'' \<and> command_text (lit ''open'') \<noteq> lit ''reset''
   \<and> callback Update_not_due solve_clock (lit ''open'') powered_example = Some powered_example"
proof -
  have a: "command_text (lit ''SoLvE'') = lit ''solve''"
    and b: "command_text (lit ''RESET'') = lit ''reset''"
    and c: "command_text (lit ''open'') \<noteq> lit ''solve''"
      "command_text (lit ''open'') \<noteq> lit ''reset''"
    by (simp_all add: command_text_def c_str_def lit_def tolower_def)
  have t: "\<not> solve_clock (Suc (reads powered_example) + 0) - solve_clock (reads powered_example) < 5000"
    by (simp add: powered_example_facts solve_clock_def clock_of_def)
  from C9_remote_command[of "lit ''SoLvE''" Update_not_due solve_clock powered_example 0
      "sense HIGH HIGH poll_none solve_clock" 0] a t
  have "\<forall>st'. callback Update_not_due solve_clock (lit ''SoLvE'') powered_example = Some st'
          \<longrightarrow> puzzleState st' = Solved"
    and "\<exists>st'. callback Update_not_due solve_clock (lit ''SoLvE'') powered_example = Some st'"
    by blast+
  then have 1: "\<exists>st'. callback Update_not_due solve_clock (lit ''SoLvE'') powered_example = Some st'
          \<and> puzzleState st' = Solved" by blast
  from C9_remote_command[of "lit ''RESET''" Update_not_due solve_clock powered_example 0
      "sense HIGH HIGH poll_none solve_clock" 0] b
  have 2: "callback Update_not_due solve_clock (lit ''RESET'') powered_example
       = Some (onReset powered_example)" by simp
  from C9_remote_command[of "lit ''open''" Update_not_due solve_clock powered_example 0
      "sense HIGH HIGH poll_none solve_clock" 0] c
  have 3: "callback Update_not_due solve_clock (lit ''open'') powered_example = Some powered_example"
    by simp
  from a b c t 1 2 3 show ?thesis by simp
qed

section \<open>C6: the crystal lock is a pulse\<close>

lemma pulsed_append: "pulsed xs \<Longrightarrow> pulsed (xs @ ys) = pulsed ys"
proof (induction xs rule: pulsed.induct)
  case 1
  then show ?case by simp
next
  case (2 e es)
  show ?case
  proof (cases "e = DigitalWrite crystalDoor HIGH")
    case True
    with 2(3) have t: "take 2 es = [Delay 10, DigitalWrite crystalDoor LOW]"
      and p: "pulsed (drop 2 es)" by simp_all
    from t have "length (take 2 es) = 2" by simp
    then have len: "2 \<le> length es" by simp
    then have "take 2 (es @ ys) = take 2 es" "drop 2 (es @ ys) = drop 2 es @ ys" by simp_all
    with 2(1)[OF True p] t True show ?thesis by simp
  next
    case False
    with 2(2,3) show ?thesis by simp
  qed
qed

lemma lights_off_frame:
  "trace (lights_off_if_active st) = trace st"
  "crystalDoor_out (lights_off_if_active st) = crystalDoor_out st"
  "beakerDoor_out (lights_off_if_active st) = beakerDoor_out st"
  "puzzleState (lights_off_if_active st) = puzzleState st"
  "alchemyPower (lights_off_if_active st) = alchemyPower st"
  by (simp_all add: lights_off_if_active_def cond_def if_distrib[of trace]
      if_distrib[of crystalDoor_out] if_distrib[of beakerDoor_out] if_distrib[of puzzleState]
      if_distrib[of alchemyPower])

lemma onReset_idle: "crystal_idle st \<Longrightarrow> crystal_idle (onReset st)"
  by (simp add: crystal_idle_def onReset_facts pulsed_append)

lemma read_Powered_idle: "crystal_idle st \<Longrightarrow> crystal_idle (read_Powered inp i st)"
proof -
  assume i: "crystal_idle st"
  have a: "crystal_idle (s\<lparr>lastUid := u\<rparr>) = crystal_idle s"
    "crystal_idle (s\<lparr>beakersCorrect := b\<rparr>) = crystal_idle s" for s u b
    by (simp_all add: crystal_idle_def)
  show ?thesis
    using i by (simp add: read_Powered_def Let_def cond_def showCurrentStatus_def a onReset_idle)
qed

lemma read_reset_only_idle: "crystal_idle st \<Longrightarrow> crystal_idle (read_reset_only inp i st)"
  by (simp add: read_reset_only_def Let_def cond_def onReset_idle)

lemma onSolve_idle:
  assumes "crystal_idle st" and "onSolve upd clk st = Some st'"
  shows "crystal_idle st'"
  using assms(1) onSolve_Some(5,6)[OF assms(2)]
  by (simp add: crystal_idle_def pulsed_append)

lemma callback_idle:
  assumes "crystal_idle st" and "callback upd clk m st = Some st'"
  shows "crystal_idle st'"
  using assms onSolve_idle[of st upd clk st'] onReset_idle[of st]
  by (auto simp add: callback_def Let_def split: if_splits)

lemma client_loop_idle:
  "crystal_idle st \<Longrightarrow> client_loop upd clk ms st = Some st' \<Longrightarrow> crystal_idle st'"
proof (induction ms arbitrary: st)
  case Nil
  then show ?case by simp
next
  case (Cons m ms)
  from Cons.prems(2) obtain s where s: "callback upd clk m st = Some s"
    and r: "client_loop upd clk ms s = Some st'"
    by (auto split: option.splits)
  from callback_idle[OF Cons.prems(1) s] have "crystal_idle s" .
  from Cons.IH[OF this r] show ?case .
qed

lemma case_Initializing_idle: "crystal_idle st \<Longrightarrow> crystal_idle (case_Initializing st)"
  by (simp add: case_Initializing_def crystal_idle_def lights_off_frame prim_defs pulsed_append)

lemma case_Unpowered_idle: "crystal_idle st \<Longrightarrow> crystal_idle (case_Unpowered st)"
  by (simp add: case_Unpowered_def crystal_idle_def lights_off_frame prim_defs pulsed_append)

lemma case_Solved_idle: "crystal_idle st \<Longrightarrow> crystal_idle (case_Solved inp st)"
proof -
  assume i: "crystal_idle st"
  let ?s1 = "st\<lparr>currentMillis := millis inp (reads st), reads := Suc (reads st)\<rparr>"
  let ?s2 = "(\<lambda>s. if currentMillis s - solvedMillis s > 1800000
            then gameOver s
            else seq [
                   cond (\<lambda>s. Color1 (LS1 s) \<noteq> Color 0 255 0)
                     (seq [LS1_update (ColorSet (Color 0 255 0) Strip1Start Strip1Length),
                           LS1_update show_strip]),
                   cond (\<lambda>s. Color1 (LS2 s) \<noteq> Color 0 255 0)
                     (seq [LS2_update (ColorSet (Color 0 255 0) Strip2Start Strip2Length),
                           LS2_update show_strip]),
                   cond (\<lambda>s. Color1 (LS3 s) \<noteq> Color 128 0 128)
                     (seq [LS3_update (ColorSet (Color 128 0 128) Strip3Start Strip3Length),
                           LS3_update show_strip]),
                   cond (\<lambda>s. Color1 (LS4 s) \<noteq> Color 0 255 0)
                     (seq [LS4_update (ColorSet (Color 0 255 0) Strip4Start Strip4Length),
                           LS4_update show_strip])] s) ?s1"
  have "crystal_idle ?s1" using i by (simp add: crystal_idle_def)
  then have "crystal_idle ?s2"
    by (simp add: crystal_idle_def gameOver_def prim_defs pulsed_append
        if_distrib[of trace] if_distrib[of crystalDoor_out])
  then have "crystal_idle (read_reset_only inp (Suc 0) (read_reset_only inp 0 ?s2))"
    by (intro read_reset_only_idle)
  then show ?thesis
    by (simp add: case_Solved_def readers_range)
qed

lemma case_GameOver_idle: "crystal_idle st \<Longrightarrow> crystal_idle (case_GameOver inp st)"
proof -
  assume i: "crystal_idle st"
  then have "crystal_idle (lights_off_if_active st)"
    by (simp add: crystal_idle_def lights_off_frame)
  then have "crystal_idle (read_reset_only inp (Suc 0) (read_reset_only inp 0 (lights_off_if_active st)))"
    by (intro read_reset_only_idle)
  then show ?thesis
    by (simp add: case_GameOver_def readers_range crystal_idle_def delay_def pulsed_append)
qed

lemma idle_steps:
  "crystal_idle (LS1_update f s) = crystal_idle s"
  "crystal_idle (LS2_update f s) = crystal_idle s"
  "crystal_idle (LS3_update f s) = crystal_idle s"
  "crystal_idle (LS4_update f s) = crystal_idle s"
  "crystal_idle (s\<lparr>puzzleState := p\<rparr>) = crystal_idle s"
  "crystal_idle (s\<lparr>beakersCorrect := b\<rparr>) = crystal_idle s"
  "crystal_idle (s\<lparr>alchemyPower := b\<rparr>) = crystal_idle s"
  "crystal_idle (s\<lparr>doorClosed := b\<rparr>) = crystal_idle s"
  "crystal_idle (showCurrentStatus s) = crystal_idle s"
  "crystal_idle s \<Longrightarrow> crystal_idle (delay n s)"
  "crystal_idle s \<Longrightarrow> crystal_idle (digitalWrite beakerDoor v s)"
  by (simp_all add: crystal_idle_def showCurrentStatus_def delay_def digitalWrite_def
      pulsed_append)

lemma power_loss_idle: "crystal_idle st \<Longrightarrow> crystal_idle (power_loss st)"
  by (simp add: power_loss_def idle_steps)

lemma check_readers_idle: "crystal_idle st \<Longrightarrow> crystal_idle (check_readers inp st)"
  by (simp add: check_readers_def readers_range idle_steps read_Powered_idle)

lemma case_Powered_idle:
  assumes "crystal_idle st" and "case_Powered upd inp st = Some st'"
  shows "crystal_idle st'"
proof -
  let ?st1 = "seq [check_readers inp, delay 50] st"
  let ?red = "seq [
       cond (\<lambda>s. ActivePattern (LS1 s) \<noteq> flash \<or> Color1 (LS1 s) \<noteq> Color 255 0 0)
         (LS1_update (Flash (Color 255 0 0) 80 Strip1Start Strip1Length forward)),
       showCurrentStatus,
       delay 2000] ?st1"
  let ?green = "seq [
       cond (\<lambda>s. alchemyPower s \<and> beakersCorrect s) (digitalWrite beakerDoor HIGH),
       cond (\<lambda>s. ActivePattern (LS1 s) \<noteq> flash \<or> Color1 (LS1 s) \<noteq> Color 0 255 0)
         (LS1_update (Flash (Color 0 255 0) 80 Strip1Start Strip1Length forward))] ?st1"
  define r0 where "r0 =
     (if \<not> beakersCorrect ?st1 then Some ?red
      else if \<not> doorClosed ?st1 then Some ?green
      else if alchemyPower ?st1 \<and> beakersCorrect ?st1 \<and> doorClosed ?st1
      then onSolve upd (millis inp) ?st1
      else Some ?st1)"
  have i1: "crystal_idle ?st1"
    using assms(1) by (simp add: idle_steps check_readers_idle)
  have red: "crystal_idle ?red"
    using i1 by (simp add: cond_def idle_steps)
  have green: "crystal_idle ?green"
    using i1 by (simp add: cond_def idle_steps)
  have "map_option (cond (\<lambda>s. \<not> alchemyPower s) power_loss) r0 = Some st'"
    using assms(2) unfolding case_Powered_def Let_def r0_def .
  then obtain r where r: "r0 = Some r" and st': "st' = cond (\<lambda>s. \<not> alchemyPower s) power_loss r"
    by auto
  have "crystal_idle r"
  proof (cases "\<not> beakersCorrect ?st1")
    case True
    with r red show ?thesis by (simp add: r0_def)
  next
    case bc: False
    show ?thesis
    proof (cases "\<not> doorClosed ?st1")
      case True
      with r bc green show ?thesis by (simp add: r0_def)
    next
      case dc: False
      show ?thesis
      proof (cases "alchemyPower ?st1")
        case True
        with r bc dc have "onSolve upd (millis inp) ?st1 = Some r" by (simp add: r0_def)
        from onSolve_idle[OF i1 this] show ?thesis .
      next
        case False
        with r bc dc i1 show ?thesis by (simp add: r0_def)
      qed
    qed
  qed
  then show ?thesis
    by (simp add: st' cond_def power_loss_idle)
qed

lemma loop_idle:
  assumes "crystal_idle st" and "loop upd inp st = Some st'"
  shows "crystal_idle st'"
proof -
  let ?st0 = "st\<lparr>alchemyPower := (laserPin inp = LOW), doorClosed := (limitSwitch inp = LOW)\<rparr>"
  have i0: "crystal_idle ?st0" using assms(1) by (simp add: crystal_idle_def)
  from assms(2) obtain st1 st2 where
    h: "(case puzzleState ?st0 of
           Initializing \<Rightarrow> Some (case_Initializing ?st0)
         | Unpowered \<Rightarrow> Some (case_Unpowered ?st0)
         | Powered \<Rightarrow> case_Powered upd inp ?st0
         | Solved \<Rightarrow> Some (case_Solved inp ?st0)
         | GameOver \<Rightarrow> Some (case_GameOver inp ?st0)) = Some st1"
    and c: "client_loop upd (millis inp) (mqtt inp) (delay 50 st1) = Some st2"
    and st': "st' = seq [LS1_update upd, LS2_update upd, LS3_update upd, LS4_update upd] st2"
    by (auto simp add: loop_def Let_def split: option.splits)
  have "crystal_idle st1"
    using h i0 case_Initializing_idle[of ?st0] case_Unpowered_idle[of ?st0]
      case_Powered_idle[of ?st0 upd inp st1] case_Solved_idle[of ?st0 inp]
      case_GameOver_idle[of ?st0 inp]
    by (cases "puzzleState ?st0") auto
  then have "crystal_idle (delay 50 st1)" by (simp add: idle_steps)
  from client_loop_idle[OF this c] show ?thesis
    by (simp add: st' idle_steps)
qed

lemma initial_idle: "crystal_idle initial"
  by (simp add: crystal_idle_def initial_def setup_sketch_def power_on_def prim_defs)

lemma reachable_idle: "reachable upd st \<Longrightarrow> crystal_idle st"
  by (induction rule: reachable.induct) (auto intro: initial_idle loop_idle)

lemma run_reachable:
  "reachable upd st \<Longrightarrow> run upd inps st = Some st' \<Longrightarrow> reachable upd st'"
proof (induction inps arbitrary: st)
  case Nil
  then show ?case by simp
next
  case (Cons inp inps)
  from Cons.prems(2) obtain s where s: "loop upd inp st = Some s"
    and r: "run upd inps s = Some st'"
    by (auto split: option.splits)
  from reachable.tick[OF Cons.prems(1) s] have "reachable upd s" .
  from Cons.IH[OF this r] show ?case .
qed

lemma solved_example_reachable: "reachable Update_not_due solved_example"
  using run_reachable[OF reachable.start solve_run(1)] .

text \<open>
  C6: the crystal lock is never held across ticks. Between two ticks, in every state the
  sketch can reach, the crystal output is low and every \<open>HIGH\<close> written to it so far was
  followed at once by \<open>delay(10)\<close> and \<open>LOW\<close>; and any single tick that starts so, on
  any input, ends so.
\<close>

theorem C6_crystal_pulse:
  "(reachable upd st \<longrightarrow> crystal_idle st)
   \<and> (crystal_idle st \<and> loop upd inp st = Some st' \<longrightarrow> crystal_idle st')"
  using reachable_idle[of upd st] loop_idle[of st upd inp st'] by blast

theorem C6_crystal_pulse_witness:
  "reachable Update_not_due solved_example
   \<and> DigitalWrite crystalDoor HIGH \<in> set (trace solved_example)
   \<and> pulsed (trace solved_example) \<and> crystalDoor_out solved_example = LOW"
proof -
  have "DigitalWrite crystalDoor HIGH \<in> set (trace solved_example)"
    by (simp add: solved_example_def solve_ticks_def solve_clock_def case_defs example_defs
        prim_defs)
  with C6_crystal_pulse[of Update_not_due solved_example] solved_example_reachable
  show ?thesis by (simp add: crystal_idle_def)
qed

section \<open>C10: who writes the beaker lock\<close>

lemma writes_to_append: "writes_to p (xs @ ys) = writes_to p xs @ writes_to p ys"
  by (induction p xs rule: writes_to.induct) simp_all

lemma power_cut_facts:
  "run Update_not_due power_cut_ticks initial = Some unpowered_locked_example"
  "puzzleState unpowered_locked_example = Unpowered"
  "beakerDoor_out unpowered_locked_example = HIGH"
  by (simp_all add: unpowered_locked_example_def power_cut_ticks_def solve_ticks_def
      solve_clock_def case_defs example_defs prim_defs)

lemma lock_step_refl: "lock_step st [] st"
  by (simp add: lock_step_def)

lemma lock_step_trans:
  "lock_step a ws b \<Longrightarrow> lock_step b ws' c \<Longrightarrow> lock_step a (ws @ ws') c"
  by (simp add: lock_step_def)

lemma lock_step_same:
  "trace s' = trace s \<Longrightarrow> beakerDoor_out s' = beakerDoor_out s \<Longrightarrow> lock_step s [] s'"
  by (simp add: lock_step_def)

lemma lock_step_onReset: "lock_step st [LOW] (onReset st)"
  by (simp add: lock_step_def onReset_facts writes_to_append)

lemma lock_step_gameOver: "lock_step st [LOW] (gameOver st)"
  by (simp add: lock_step_def gameOver_def prim_defs writes_to_append)

lemma lock_step_lights_off: "lock_step st [] (lights_off_if_active st)"
  by (simp add: lock_step_def lights_off_frame)

lemma lock_step_power_loss: "lock_step st [] (power_loss st)"
  by (simp add: lock_step_def power_loss_def prim_defs writes_to_append)

lemma lock_step_onSolve: "onSolve upd clk st = Some st' \<Longrightarrow> lock_step st [] st'"
  using onSolve_Some(4,6)[of upd clk st st']
  by (simp add: lock_step_def writes_to_append)

lemma lock_step_read_Powered:
  "lock_step st (if reading inp i = Some resetUid then [LOW] else []) (read_Powered inp i st)"
proof (cases "rc (getInventory inp i) = ISO15693_EC_OK")
  case True
  let ?s = "seq [
             cond (\<lambda>s. \<not> memcmp_eq (thisUid (getInventory inp i)) (lastUid s ! i) 8)
               (seq [(\<lambda>s. s\<lparr>lastUid := (lastUid s)[i := memcpy (lastUid s ! i) (thisUid (getInventory inp i)) 8]\<rparr>),
                     showCurrentStatus]),
             cond (\<lambda>s. \<not> memcmp_eq (thisUid (getInventory inp i)) (correctUid ! i) 8)
               (\<lambda>s. s\<lparr>beakersCorrect := False\<rparr>)] st"
  have s: "lock_step st [] ?s"
    by (simp add: lock_step_def cond_def showCurrentStatus_def if_distrib[of trace]
        if_distrib[of beakerDoor_out])
  have r: "read_Powered inp i st = cond (\<lambda>s. reading inp i = Some resetUid) onReset ?s"
    using True by (simp add: read_Powered_def Let_def memcmp_reading take8_uids)
  show ?thesis
  proof (cases "reading inp i = Some resetUid")
    case True
    with r lock_step_trans[OF s lock_step_onReset[of ?s]] show ?thesis
      by (simp add: cond_def)
  next
    case False
    with r s show ?thesis by (simp add: cond_def)
  qed
next
  case False
  then have "reading inp i = None" by (simp add: reading_def)
  moreover have "lock_step st [] (read_Powered inp i st)"
    using False
    by (simp add: lock_step_def read_Powered_def Let_def cond_def showCurrentStatus_def
        if_distrib[of trace] if_distrib[of beakerDoor_out])
  ultimately show ?thesis by simp
qed

lemma lock_step_read_reset_only:
  "lock_step st (if memcmp_eq (thisUid (getInventory inp i)) resetUid 8 then [LOW] else [])
     (read_reset_only inp i st)"
  by (simp add: read_reset_only_def cond_def lock_step_onReset lock_step_refl)

lemma lock_step_check_readers: "lock_step st (reset_tags inp) (check_readers inp st)"
proof -
  let ?s0 = "st\<lparr>beakersCorrect := True\<rparr>"
  have 0: "lock_step st [] ?s0" by (simp add: lock_step_def)
  from lock_step_trans[OF lock_step_trans[OF 0 lock_step_read_Powered[of ?s0 inp 0]]
      lock_step_read_Powered[of "read_Powered inp 0 ?s0" inp "Suc 0"]]
  show ?thesis
    by (simp add: check_readers_def readers_range reset_tags_def)
qed

lemma lock_step_reset_loop:
  "lock_step st (reset_buffers inp) (fold (read_reset_only inp) [0..<numReaders] st)"
  using lock_step_trans[OF lock_step_read_reset_only[of st inp 0]
      lock_step_read_reset_only[of "read_reset_only inp 0 st" inp "Suc 0"]]
  by (simp add: readers_range reset_buffers_def)

lemma lock_step_callback:
  assumes "callback upd clk m st = Some st'"
  shows "lock_step st (if command_text m = lit ''reset'' then [LOW] else []) st'"
proof -
  have ne: "lit ''reset'' \<noteq> lit ''solve''" by (simp add: lit_def)
  show ?thesis
  proof (cases "command_text m = lit ''solve''")
    case True
    with assms have "onSolve upd clk st = Some st'"
      by (simp add: callback_def strcmp_command Let_def)
    from lock_step_onSolve[OF this] True ne show ?thesis by simp
  next
    case False
    with assms show ?thesis
      by (auto simp add: callback_def strcmp_command Let_def lock_step_onReset lock_step_refl
          split: if_splits)
  qed
qed

lemma lock_step_client_loop:
  "client_loop upd clk ms st = Some st' \<Longrightarrow> lock_step st (remote_resets ms) st'"
proof (induction ms arbitrary: st)
  case Nil
  then show ?case by (simp add: remote_resets_def lock_step_refl)
next
  case (Cons m ms)
  from Cons.prems obtain s where s: "callback upd clk m st = Some s"
    and r: "client_loop upd clk ms s = Some st'"
    by (auto split: option.splits)
  from lock_step_trans[OF lock_step_callback[OF s] Cons.IH[OF r]] show ?case
    by (simp add: remote_resets_def)
qed

lemma lock_step_case_Initializing: "lock_step st [LOW] (case_Initializing st)"
  by (simp add: lock_step_def case_Initializing_def lights_off_frame prim_defs writes_to_append)

lemma lock_step_case_Unpowered: "lock_step st [] (case_Unpowered st)"
  by (simp add: lock_step_def case_Unpowered_def lights_off_frame prim_defs writes_to_append
      if_distrib[of trace] if_distrib[of beakerDoor_out])

lemma lock_step_case_GameOver: "lock_step st (reset_buffers inp) (case_GameOver inp st)"
proof -
  let ?s = "fold (read_reset_only inp) [0..<numReaders] (lights_off_if_active st)"
  have "lock_step st (reset_buffers inp) ?s"
    using lock_step_trans[OF lock_step_lights_off lock_step_reset_loop] by simp
  moreover have "lock_step ?s [] (delay 1000 ?s)"
    by (simp add: lock_step_def delay_def writes_to_append)
  ultimately have "lock_step st (reset_buffers inp) (delay 1000 ?s)"
    using lock_step_trans by fastforce
  then show ?thesis by (simp add: case_GameOver_def)
qed

lemma lock_step_case_Solved:
  "lock_step st
     ((if 1800000 < millis inp (reads st) - solvedMillis st then [LOW] else []) @ reset_buffers inp)
     (case_Solved inp st)"
proof -
  let ?s1 = "st\<lparr>currentMillis := millis inp (reads st), reads := Suc (reads st)\<rparr>"
  let ?colors = "seq [
                   cond (\<lambda>s. Color1 (LS1 s) \<noteq> Color 0 255 0)
                     (seq [LS1_update (ColorSet (Color 0 255 0) Strip1Start Strip1Length),
                           LS1_update show_strip]),
                   cond (\<lambda>s. Color1 (LS2 s) \<noteq> Color 0 255 0)
                     (seq [LS2_update (ColorSet (Color 0 255 0) Strip2Start Strip2Length),
                           LS2_update show_strip]),
                   cond (\<lambda>s. Color1 (LS3 s) \<noteq> Color 128 0 128)
                     (seq [LS3_update (ColorSet (Color 128 0 128) Strip3Start Strip3Length),
                           LS3_update show_strip]),
                   cond (\<lambda>s. Color1 (LS4 s) \<noteq> Color 0 255 0)
                     (seq [LS4_update (ColorSet (Color 0 255 0) Strip4Start Strip4Length),
                           LS4_update show_strip])] ?s1"
  let ?s2 = "if 1800000 < millis inp (reads st) - solvedMillis st then gameOver ?s1 else ?colors"
  have c: "lock_step st [] ?colors"
    by (simp add: lock_step_def cond_def if_distrib[of trace] if_distrib[of beakerDoor_out])
  have g: "lock_step st [LOW] (gameOver ?s1)"
    by (simp add: lock_step_def gameOver_def prim_defs writes_to_append)
  have 2: "lock_step st (if 1800000 < millis inp (reads st) - solvedMillis st then [LOW] else []) ?s2"
    using c g by simp
  have "case_Solved inp st = fold (read_reset_only inp) [0..<numReaders] ?s2"
    by (simp add: case_Solved_def)
  with lock_step_trans[OF 2 lock_step_reset_loop[of ?s2 inp]] show ?thesis by simp
qed

lemma lock_step_case_Powered:
  assumes "case_Powered upd inp st = Some st'"
  shows "lock_step st
     (reset_tags inp
      @ (if reading inp 0 = Some (correctUid ! 0) \<and> reading inp (Suc 0) = Some (correctUid ! Suc 0)
            \<and> \<not> doorClosed st \<and> alchemyPower st
         then [HIGH] else []))
     st'"
proof -
  let ?st1 = "seq [check_readers inp, delay 50] st"
  let ?red = "seq [
       cond (\<lambda>s. ActivePattern (LS1 s) \<noteq> flash \<or> Color1 (LS1 s) \<noteq> Color 255 0 0)
         (LS1_update (Flash (Color 255 0 0) 80 Strip1Start Strip1Length forward)),
       showCurrentStatus,
       delay 2000] ?st1"
  let ?green = "seq [
       cond (\<lambda>s. alchemyPower s \<and> beakersCorrect s) (digitalWrite beakerDoor HIGH),
       cond (\<lambda>s. ActivePattern (LS1 s) \<noteq> flash \<or> Color1 (LS1 s) \<noteq> Color 0 255 0)
         (LS1_update (Flash (Color 0 255 0) 80 Strip1Start Strip1Length forward))] ?st1"
  define engage where "engage =
     (if reading inp 0 = Some (correctUid ! 0) \<and> reading inp (Suc 0) = Some (correctUid ! Suc 0)
            \<and> \<not> doorClosed st \<and> alchemyPower st
         then [HIGH] else [])"
  define r0 where "r0 =
     (if \<not> beakersCorrect ?st1 then Some ?red
      else if \<not> doorClosed ?st1 then Some ?green
      else if alchemyPower ?st1 \<and> beakersCorrect ?st1 \<and> doorClosed ?st1
      then onSolve upd (millis inp) ?st1
      else Some ?st1)"
  have sel: "beakersCorrect ?st1 =
      (reading inp 0 = Some (correctUid ! 0) \<and> reading inp (Suc 0) = Some (correctUid ! Suc 0))"
    "doorClosed ?st1 = doorClosed st" "alchemyPower ?st1 = alchemyPower st"
    by (simp_all add: delay_def check_readers_sel check_readers_frame)
  have "lock_step (check_readers inp st) [] ?st1"
    by (simp add: lock_step_def delay_def writes_to_append)
  with lock_step_trans[OF lock_step_check_readers[of st inp]]
  have 1: "lock_step st (reset_tags inp) ?st1" by fastforce
  have red: "lock_step ?st1 [] ?red"
    by (simp add: lock_step_def cond_def prim_defs writes_to_append if_distrib[of trace]
        if_distrib[of beakerDoor_out])
  have green: "lock_step ?st1 (if alchemyPower ?st1 \<and> beakersCorrect ?st1 then [HIGH] else []) ?green"
    by (simp add: lock_step_def cond_def prim_defs writes_to_append if_distrib[of trace]
        if_distrib[of beakerDoor_out])
  have "map_option (cond (\<lambda>s. \<not> alchemyPower s) power_loss) r0 = Some st'"
    using assms unfolding case_Powered_def Let_def r0_def .
  then obtain r where r: "r0 = Some r" and st': "st' = cond (\<lambda>s. \<not> alchemyPower s) power_loss r"
    by auto
  have 2: "lock_step ?st1 engage r"
  proof (cases "\<not> beakersCorrect ?st1")
    case True
    with r have "r = ?red" by (simp add: r0_def)
    moreover from True sel(1) have "engage = []" by (auto simp add: engage_def)
    ultimately show ?thesis using red by (simp only:)
  next
    case bc: False
    show ?thesis
    proof (cases "\<not> doorClosed ?st1")
      case True
      with r bc have "r = ?green" by (simp add: r0_def)
      moreover from True bc sel have "engage = (if alchemyPower ?st1 \<and> beakersCorrect ?st1 then [HIGH] else [])"
        by (auto simp add: engage_def)
      ultimately show ?thesis using green by (simp only:)
    next
      case dc: False
      from dc sel(2) have e: "engage = []" by (auto simp add: engage_def)
      show ?thesis
      proof (cases "alchemyPower ?st1")
        case True
        with r bc dc have "onSolve upd (millis inp) ?st1 = Some r" by (simp add: r0_def)
        from lock_step_onSolve[OF this] e show ?thesis by (simp only:)
      next
        case False
        with r bc dc have "r = ?st1" by (simp add: r0_def)
        with e show ?thesis by (simp only: lock_step_refl)
      qed
    qed
  qed
  have 3: "lock_step r [] st'"
    by (simp add: st' cond_def lock_step_power_loss lock_step_refl)
  from lock_step_trans[OF lock_step_trans[OF 1 2] 3] show ?thesis
    by (simp add: engage_def)
qed

text \<open>
  C10, as stated: whatever level the lock has on entering \<open>Unpowered\<close> or \<open>GameOver\<close>
  persists across every tick spent there. The state below is \<open>Unpowered\<close> with the lock
  engaged (power was cut while it held). A tick in which the payload "reset" arrives
  starts and ends in \<open>Unpowered\<close>, and \<open>onReset()\<close>, called from \<open>callback\<close>, writes the
  lock low.
\<close>

theorem C10_counterexample:
  "puzzleState unpowered_locked_example = Unpowered
   \<and> beakerDoor_out unpowered_locked_example = HIGH
   \<and> map_option puzzleState
       (loop Update_not_due ((sense HIGH HIGH poll_none solve_clock)\<lparr>mqtt := [lit ''reset'']\<rparr>)
          unpowered_locked_example)
     = Some Unpowered
   \<and> map_option beakerDoor_out
       (loop Update_not_due ((sense HIGH HIGH poll_none solve_clock)\<lparr>mqtt := [lit ''reset'']\<rparr>)
          unpowered_locked_example)
     = Some LOW"
  by (simp add: unpowered_locked_example_def power_cut_ticks_def solve_ticks_def solve_clock_def
      lit_def tolower_def strcmp_eq_def c_str_def callback_def case_defs example_defs prim_defs)

text \<open>
  C10, amended: the beaker lock is written only by \<open>setup()\<close>, the \<open>Initializing\<close> case,
  the engage branch of \<open>Powered\<close>, \<open>gameOver()\<close> and \<open>onReset()\<close>. \<open>setup()\<close> writes it
  low once. In a tick the levels written to it are exactly those of \<open>beaker_writes\<close>, in
  that order, and afterwards the pin shows the last of them, or its old level when there
  is none. So the \<open>Unpowered\<close> case writes nothing and the \<open>GameOver\<close> case writes only
  through \<open>onReset()\<close>: across a tick that starts in \<open>Unpowered\<close> or \<open>GameOver\<close> the lock
  keeps its level unless \<open>onReset()\<close> runs in that tick (a reader buffer holding the reset
  identifier in \<open>GameOver\<close>, a remote "reset" in either state), which writes it low.
\<close>

theorem C10_beaker_writers:
  "lock_step power_on [LOW] initial
   \<and> (loop upd inp st = Some st' \<longrightarrow> lock_step st (beaker_writes inp st) st')"
proof -
  have "lock_step power_on [LOW] initial"
    by (simp add: lock_step_def initial_def setup_sketch_def power_on_def prim_defs)
  moreover have "lock_step st (beaker_writes inp st) st'" if l: "loop upd inp st = Some st'"
  proof -
    let ?st0 = "st\<lparr>alchemyPower := (laserPin inp = LOW), doorClosed := (limitSwitch inp = LOW)\<rparr>"
    let ?ws = "case puzzleState st of
        Initializing \<Rightarrow> [LOW]
      | Unpowered \<Rightarrow> []
      | Powered \<Rightarrow>
          reset_tags inp
          @ (if reading inp 0 = Some (correctUid ! 0) \<and> reading inp (Suc 0) = Some (correctUid ! Suc 0)
                \<and> limitSwitch inp \<noteq> LOW \<and> laserPin inp = LOW
             then [HIGH] else [])
      | Solved \<Rightarrow>
          (if 1800000 < millis inp (reads st) - solvedMillis st then [LOW] else [])
          @ reset_buffers inp
      | GameOver \<Rightarrow> reset_buffers inp"
    from l obtain st1 st2 where
      h: "(case puzzleState ?st0 of
             Initializing \<Rightarrow> Some (case_Initializing ?st0)
           | Unpowered \<Rightarrow> Some (case_Unpowered ?st0)
           | Powered \<Rightarrow> case_Powered upd inp ?st0
           | Solved \<Rightarrow> Some (case_Solved inp ?st0)
           | GameOver \<Rightarrow> Some (case_GameOver inp ?st0)) = Some st1"
      and c: "client_loop upd (millis inp) (mqtt inp) (delay 50 st1) = Some st2"
      and st': "st' = seq [LS1_update upd, LS2_update upd, LS3_update upd, LS4_update upd] st2"
      by (auto simp add: loop_def Let_def split: option.splits)
    have 0: "lock_step st [] ?st0" by (simp add: lock_step_def)
    have "lock_step ?st0 ?ws st1"
    proof (cases "puzzleState st")
      case Initializing
      with h have "st1 = case_Initializing ?st0" by simp
      with Initializing show ?thesis by (simp add: lock_step_case_Initializing)
    next
      case Unpowered
      with h have "st1 = case_Unpowered ?st0" by simp
      with Unpowered show ?thesis by (simp add: lock_step_case_Unpowered)
    next
      case Powered
      with h have "case_Powered upd inp ?st0 = Some st1" by simp
      from lock_step_case_Powered[OF this] Powered show ?thesis by simp
    next
      case Solved
      with h have "st1 = case_Solved inp ?st0" by simp
      with Solved lock_step_case_Solved[of ?st0 inp] show ?thesis by simp
    next
      case GameOver
      with h have "st1 = case_GameOver inp ?st0" by simp
      with GameOver show ?thesis by (simp add: lock_step_case_GameOver)
    qed
    with 0 have 1: "lock_step st ?ws st1" using lock_step_trans by fastforce
    have "lock_step st1 [] (delay 50 st1)"
      by (simp add: lock_step_def delay_def writes_to_append)
    with 1 have 2: "lock_step st ?ws (delay 50 st1)" using lock_step_trans by fastforce
    have 3: "lock_step st2 [] st'" by (simp add: st' lock_step_def)
    from lock_step_trans[OF lock_step_trans[OF 2 lock_step_client_loop[OF c]] 3]
    show ?thesis by (simp add: beaker_writes_def)
  qed
  ultimately show ?thesis by blast
qed

theorem C10_beaker_writers_witness:
  "beaker_writes ((sense LOW HIGH poll_reset solve_clock)\<lparr>mqtt := [lit ''status'']\<rparr>)
      unpowered_locked_example = []
   \<and> (\<exists>st'. loop Update_not_due ((sense LOW HIGH poll_reset solve_clock)\<lparr>mqtt := [lit ''status'']\<rparr>)
               unpowered_locked_example = Some st'
          \<and> writes_to beakerDoor (trace st') = writes_to beakerDoor (trace unpowered_locked_example)
          \<and> beakerDoor_out st' = HIGH)"
proof -
  let ?inp = "(sense LOW HIGH poll_reset solve_clock)\<lparr>mqtt := [lit ''status'']\<rparr>"
  have w: "beaker_writes ?inp unpowered_locked_example = []"
    by (simp add: beaker_writes_def power_cut_facts remote_resets_def sense_def command_text_def
        c_str_def lit_def tolower_def)
  have "callback Update_not_due (millis ?inp) (lit ''status'') s = Some s" for s
    by (simp add: callback_def strcmp_eq_def c_str_def lit_def tolower_def)
  then obtain st' where l: "loop Update_not_due ?inp unpowered_locked_example = Some st'"
    by (simp add: loop_def sense_def power_cut_facts)
  from C10_beaker_writers[of Update_not_due ?inp unpowered_locked_example st'] l w
  have "lock_step unpowered_locked_example [] st'" by simp
  with l w power_cut_facts show ?thesis by (simp add: lock_step_def)
qed

section \<open>C1: the beaker lock and the unpowered state\<close>

text \<open>
  C1, as stated: the beaker lock is never asserted while the state is \<open>Unpowered\<close>, and
  losing power in \<open>Powered\<close> releases it. In the run below the lock is engaged in
  \<open>Powered\<close> (both beakers right, door open), then the laser is interrupted: the tick
  ends in \<open>Unpowered\<close> with the lock output still \<open>HIGH\<close>.
\<close>

theorem C1_counterexample:
  "map_option puzzleState (run Update_not_due power_cut_ticks initial) = Some Unpowered
   \<and> map_option beakerDoor_out (run Update_not_due power_cut_ticks initial) = Some HIGH"
  by (simp add: power_cut_facts)

lemma read_reset_only_puzzleState:
  "puzzleState (read_reset_only inp i st) =
     (if memcmp_eq (thisUid (getInventory inp i)) resetUid 8 then Unpowered else puzzleState st)"
  by (simp add: read_reset_only_def cond_def onReset_facts)

lemma callback_started:
  assumes "puzzleState st \<noteq> Initializing" and "callback upd clk m st = Some st'"
  shows "puzzleState st' \<noteq> Initializing"
  using assms onSolve_Some(1)[of upd clk st st']
  by (auto simp add: callback_def Let_def onReset_facts split: if_splits)

lemma client_loop_started:
  "puzzleState st \<noteq> Initializing \<Longrightarrow> client_loop upd clk ms st = Some st' \<Longrightarrow>
   puzzleState st' \<noteq> Initializing"
proof (induction ms arbitrary: st)
  case Nil
  then show ?case by simp
next
  case (Cons m ms)
  from Cons.prems(2) obtain s where s: "callback upd clk m st = Some s"
    and r: "client_loop upd clk ms s = Some st'"
    by (auto split: option.splits)
  from callback_started[OF Cons.prems(1) s] have "puzzleState s \<noteq> Initializing" .
  from Cons.IH[OF this r] show ?case .
qed

lemma power_loss_facts:
  "puzzleState (power_loss st) = Unpowered"
  "beakerDoor_out (power_loss st) = beakerDoor_out st"
  by (simp_all add: power_loss_def prim_defs)

lemma case_Powered_started:
  assumes "puzzleState st = Powered" and "case_Powered upd inp st = Some st'"
  shows "puzzleState st' \<noteq> Initializing"
proof -
  let ?st1 = "seq [check_readers inp, delay 50] st"
  let ?red = "seq [
       cond (\<lambda>s. ActivePattern (LS1 s) \<noteq> flash \<or> Color1 (LS1 s) \<noteq> Color 255 0 0)
         (LS1_update (Flash (Color 255 0 0) 80 Strip1Start Strip1Length forward)),
       showCurrentStatus,
       delay 2000] ?st1"
  let ?green = "seq [
       cond (\<lambda>s. alchemyPower s \<and> beakersCorrect s) (digitalWrite beakerDoor HIGH),
       cond (\<lambda>s. ActivePattern (LS1 s) \<noteq> flash \<or> Color1 (LS1 s) \<noteq> Color 0 255 0)
         (LS1_update (Flash (Color 0 255 0) 80 Strip1Start Strip1Length forward))] ?st1"
  define r0 where "r0 =
     (if \<not> beakersCorrect ?st1 then Some ?red
      else if \<not> doorClosed ?st1 then Some ?green
      else if alchemyPower ?st1 \<and> beakersCorrect ?st1 \<and> doorClosed ?st1
      then onSolve upd (millis inp) ?st1
      else Some ?st1)"
  have p1: "puzzleState ?st1 \<noteq> Initializing"
    using assms(1) by (simp add: delay_def check_readers_sel)
  have red: "puzzleState ?red = puzzleState ?st1"
    by (simp add: cond_def prim_defs if_distrib[of puzzleState])
  have green: "puzzleState ?green = puzzleState ?st1"
    by (simp add: cond_def prim_defs if_distrib[of puzzleState])
  have "map_option (cond (\<lambda>s. \<not> alchemyPower s) power_loss) r0 = Some st'"
    using assms(2) unfolding case_Powered_def Let_def r0_def .
  then obtain r where r: "r0 = Some r" and st': "st' = cond (\<lambda>s. \<not> alchemyPower s) power_loss r"
    by auto
  have "puzzleState r \<noteq> Initializing"
  proof (cases "\<not> beakersCorrect ?st1")
    case True
    with r red p1 show ?thesis by (simp add: r0_def)
  next
    case bc: False
    show ?thesis
    proof (cases "\<not> doorClosed ?st1")
      case True
      with r bc green p1 show ?thesis by (simp add: r0_def)
    next
      case dc: False
      show ?thesis
      proof (cases "alchemyPower ?st1")
        case True
        with r bc dc have "onSolve upd (millis inp) ?st1 = Some r" by (simp add: r0_def)
        from onSolve_Some(1)[OF this] show ?thesis by simp
      next
        case False
        with r bc dc p1 show ?thesis by (simp add: r0_def)
      qed
    qed
  qed
  then show ?thesis
    by (simp add: st' cond_def power_loss_facts)
qed

lemma handlers_started:
  "puzzleState (case_Initializing st) \<noteq> Initializing"
  "puzzleState (case_Unpowered st) \<noteq> Initializing"
  "puzzleState st \<noteq> Initializing \<Longrightarrow> puzzleState (case_Solved inp st) \<noteq> Initializing"
  "puzzleState st \<noteq> Initializing \<Longrightarrow> puzzleState (case_GameOver inp st) \<noteq> Initializing"
proof -
  show "puzzleState (case_Initializing st) \<noteq> Initializing"
    by (simp add: case_Initializing_def)
  show "puzzleState (case_Unpowered st) \<noteq> Initializing"
    by (simp add: case_Unpowered_def delay_def if_distrib[of puzzleState])
  show "puzzleState (case_Solved inp st) \<noteq> Initializing" if "puzzleState st \<noteq> Initializing"
    using that
    by (simp add: case_Solved_def readers_range read_reset_only_puzzleState
        gameOver_def prim_defs if_distrib[of puzzleState])
  show "puzzleState (case_GameOver inp st) \<noteq> Initializing" if "puzzleState st \<noteq> Initializing"
    using that
    by (simp add: case_GameOver_def readers_range read_reset_only_puzzleState
        lights_off_frame delay_def)
qed

lemma loop_started:
  assumes "loop upd inp st = Some st'"
  shows "puzzleState st' \<noteq> Initializing"
proof -
  let ?st0 = "st\<lparr>alchemyPower := (laserPin inp = LOW), doorClosed := (limitSwitch inp = LOW)\<rparr>"
  from assms obtain st1 st2 where
    h: "(case puzzleState ?st0 of
           Initializing \<Rightarrow> Some (case_Initializing ?st0)
         | Unpowered \<Rightarrow> Some (case_Unpowered ?st0)
         | Powered \<Rightarrow> case_Powered upd inp ?st0
         | Solved \<Rightarrow> Some (case_Solved inp ?st0)
         | GameOver \<Rightarrow> Some (case_GameOver inp ?st0)) = Some st1"
    and c: "client_loop upd (millis inp) (mqtt inp) (delay 50 st1) = Some st2"
    and st': "st' = seq [LS1_update upd, LS2_update upd, LS3_update upd, LS4_update upd] st2"
    by (auto simp add: loop_def Let_def split: option.splits)
  have "puzzleState st1 \<noteq> Initializing"
  proof (cases "puzzleState st")
    case Initializing
    with h have "st1 = case_Initializing ?st0" by simp
    then show ?thesis by (simp add: handlers_started)
  next
    case Unpowered
    with h have "st1 = case_Unpowered ?st0" by simp
    then show ?thesis by (simp add: handlers_started)
  next
    case Powered
    with h case_Powered_started[of ?st0 upd inp st1] show ?thesis by simp
  next
    case Solved
    with h have "st1 = case_Solved inp ?st0" by simp
    moreover have "puzzleState ?st0 \<noteq> Initializing" using Solved by simp
    ultimately show ?thesis using handlers_started(3) by blast
  next
    case GameOver
    with h have "st1 = case_GameOver inp ?st0" by simp
    moreover have "puzzleState ?st0 \<noteq> Initializing" using GameOver by simp
    ultimately show ?thesis using handlers_started(4) by blast
  qed
  then have "puzzleState (delay 50 st1) \<noteq> Initializing" by (simp add: delay_def)
  from client_loop_started[OF this c] show ?thesis by (simp add: st')
qed

lemma reachable_started:
  "reachable upd st \<Longrightarrow> st = initial \<or> puzzleState st \<noteq> Initializing"
  by (induction rule: reachable.induct) (auto dest: loop_started)

lemma initial_lock: "beakerDoor_out initial = LOW"
  by (simp add: initial_def setup_sketch_def power_on_def prim_defs)

lemma read_Powered_lock:
  "reading inp i \<noteq> Some resetUid \<Longrightarrow>
   beakerDoor_out (read_Powered inp i st) = beakerDoor_out st"
proof (cases "rc (getInventory inp i) = ISO15693_EC_OK")
  case True
  assume "reading inp i \<noteq> Some resetUid"
  with True show ?thesis
    by (simp add: read_Powered_def Let_def cond_def memcmp_reading take8_uids
        showCurrentStatus_def if_distrib[of beakerDoor_out])
next
  case False
  then show ?thesis
    by (simp add: read_Powered_def Let_def cond_def showCurrentStatus_def
        if_distrib[of beakerDoor_out])
qed

lemma case_Powered_power_loss:
  assumes "puzzleState st = Powered" and "\<not> alchemyPower st"
    and "reading inp 0 \<noteq> Some resetUid" and "reading inp (Suc 0) \<noteq> Some resetUid"
  shows "\<exists>st'. case_Powered upd inp st = Some st' \<and> puzzleState st' = Unpowered
           \<and> beakerDoor_out st' = beakerDoor_out st"
proof -
  let ?st1 = "seq [check_readers inp, delay 50] st"
  have a: "\<not> alchemyPower ?st1"
    using assms(2) by (simp add: delay_def check_readers_frame)
  have b: "beakerDoor_out ?st1 = beakerDoor_out st"
    using assms(3,4) by (simp add: delay_def check_readers_def readers_range read_Powered_lock)
  show ?thesis
    using a b
    by (simp add: case_Powered_def Let_def cond_def power_loss_facts prim_defs
        if_distrib[of alchemyPower] if_distrib[of beakerDoor_out])
qed

text \<open>
  C1, amended: the beaker lock is never asserted while the state is \<open>Initializing\<close>, in
  any reachable state. The \<open>Initializing\<close> tick and every call of \<open>onReset()\<close> write the
  lock low and leave the state \<open>Unpowered\<close>. Losing power in \<open>Powered\<close> (no reset tag
  read, no remote command) also leads to \<open>Unpowered\<close>, but without writing the lock
  output, which keeps the level it had.
\<close>

theorem C1_beaker_lock:
  "(reachable upd st \<and> puzzleState st = Initializing \<longrightarrow> beakerDoor_out st = LOW)
   \<and> (puzzleState st = Initializing \<and> mqtt inp = [] \<longrightarrow>
        (\<exists>st'. loop upd inp st = Some st' \<and> puzzleState st' = Unpowered
               \<and> beakerDoor_out st' = LOW))
   \<and> puzzleState (onReset st) = Unpowered \<and> beakerDoor_out (onReset st) = LOW
   \<and> (puzzleState st = Powered \<and> laserPin inp = HIGH \<and> mqtt inp = []
        \<and> reading inp 0 \<noteq> Some resetUid \<and> reading inp (Suc 0) \<noteq> Some resetUid \<longrightarrow>
        (\<exists>st'. loop upd inp st = Some st' \<and> puzzleState st' = Unpowered
               \<and> beakerDoor_out st' = beakerDoor_out st))"
proof -
  have A: "beakerDoor_out st = LOW" if "reachable upd st" "puzzleState st = Initializing"
    using reachable_started[OF that(1)] that(2) initial_lock by auto
  have B: "\<exists>st'. loop upd inp st = Some st' \<and> puzzleState st' = Unpowered \<and> beakerDoor_out st' = LOW"
    if "puzzleState st = Initializing" "mqtt inp = []"
    using that
    by (simp add: loop_def case_Initializing_def lights_off_frame prim_defs
        if_distrib[of puzzleState] if_distrib[of beakerDoor_out])
  have D: "\<exists>st'. loop upd inp st = Some st' \<and> puzzleState st' = Unpowered
               \<and> beakerDoor_out st' = beakerDoor_out st"
    if "puzzleState st = Powered" "laserPin inp = HIGH" "mqtt inp = []"
      "reading inp 0 \<noteq> Some resetUid" "reading inp (Suc 0) \<noteq> Some resetUid"
  proof -
    let ?st0 = "st\<lparr>alchemyPower := (laserPin inp = LOW), doorClosed := (limitSwitch inp = LOW)\<rparr>"
    from case_Powered_power_loss[of ?st0 inp upd] that
    obtain s where s: "case_Powered upd inp ?st0 = Some s" "puzzleState s = Unpowered"
      "beakerDoor_out s = beakerDoor_out st" by auto
    then show ?thesis
      using that(1,3) by (simp add: loop_def delay_def)
  qed
  from A B D show ?thesis by (simp add: onReset_facts)
qed

theorem C1_beaker_lock_witness:
  "reachable Update_not_due initial \<and> puzzleState initial = Initializing
   \<and> beakerDoor_out initial = LOW
   \<and> puzzleState engaged_example = Powered
   \<and> beakerDoor_out engaged_example = HIGH
   \<and> laserPin (sense HIGH HIGH poll_correct solve_clock) = HIGH
   \<and> mqtt (sense HIGH HIGH poll_correct solve_clock) = []
   \<and> reading (sense HIGH HIGH poll_correct solve_clock) 0 \<noteq> Some resetUid
   \<and> reading (sense HIGH HIGH poll_correct solve_clock) (Suc 0) \<noteq> Some resetUid
   \<and> (\<exists>st'. loop Update_not_due (sense HIGH HIGH poll_correct solve_clock) engaged_example = Some st'
          \<and> puzzleState st' = Unpowered \<and> beakerDoor_out st' = HIGH)"
proof -
  let ?inp = "sense HIGH HIGH poll_correct solve_clock"
  have i1: "reachable Update_not_due initial" by (rule reachable.start)
  have i2: "puzzleState initial = Initializing"
    by (simp add: initial_def setup_sketch_def power_on_def prim_defs)
  note i = i1 i2
  have h: "laserPin ?inp = HIGH" "mqtt ?inp = []"
    "reading ?inp 0 \<noteq> Some resetUid" "reading ?inp (Suc 0) \<noteq> Some resetUid"
    by (simp_all add: sense_def reading_def poll_correct_def correctUid_def resetUid_def)
  from C1_beaker_lock[of Update_not_due initial ?inp] i
  have 1: "beakerDoor_out initial = LOW" by blast
  from C1_beaker_lock[of Update_not_due engaged_example ?inp] h engaged_example_facts(2)
  have "\<exists>st'. loop Update_not_due ?inp engaged_example = Some st' \<and> puzzleState st' = Unpowered
               \<and> beakerDoor_out st' = beakerDoor_out engaged_example" by blast
  with 1 i h engaged_example_facts show ?thesis by simp
qed

section \<open>C2: a reset tag read in the powered state\<close>

text \<open>
  C2 at a failing input. The state is \<open>Powered\<close> with the beaker lock engaged; power is
  present, the door is open, reader 0 reads the reset tag and reader 1 its correct beaker.
  \<open>onReset()\<close> is called inside the reader loop: it releases the lock, stops the four
  patterns and sets the state to \<open>Unpowered\<close>. But \<open>case Powered\<close> goes on after the
  loop: \<open>beakersCorrect\<close> is false, so it starts the red flash on the beaker strip. The
  tick ends in \<open>Unpowered\<close> with the lock released and a pattern running. When the reset
  arrives as a remote command instead, in the same state with no tag on reader 0, all
  patterns are stopped at the end of the tick.
\<close>

theorem C2_flash_after_reset:
  "map_option puzzleState
     (loop Update_not_due (sense LOW HIGH poll_reset_first solve_clock) engaged_example)
     = Some Unpowered
   \<and> map_option beakerDoor_out
     (loop Update_not_due (sense LOW HIGH poll_reset_first solve_clock) engaged_example)
     = Some LOW
   \<and> map_option beaker_strip
     (loop Update_not_due (sense LOW HIGH poll_reset_first solve_clock) engaged_example)
     = Some (flash, Color 255 0 0)
   \<and> map_option patterns_stopped
     (loop Update_not_due (sense LOW HIGH poll_reset_first solve_clock) engaged_example)
     = Some False
   \<and> map_option patterns_stopped
     (loop Update_not_due ((sense LOW HIGH poll_none solve_clock)\<lparr>mqtt := [lit ''reset'']\<rparr>)
        engaged_example)
     = Some True"
  by (simp add: engaged_example_def solve_ticks_def solve_clock_def beaker_strip_def
      patterns_stopped_def poll_reset_first_def poll_reset_def
      lit_def tolower_def strcmp_eq_def c_str_def callback_def case_defs example_defs prim_defs)

section \<open>C7: a failed read in the solved state\<close>


section \<open>C8: the strips after the dwell\<close>

text \<open>
  C8 at a failing input. The state is \<open>Solved\<close> as \<open>onSolve()\<close> left it: the four strips
  show their final colours, no pattern is active, the beaker lock is engaged. The timer
  is 1,800,001 ms past the solve timestamp. \<open>gameOver()\<close> releases the lock and sets the
  state to \<open>GameOver\<close>; it writes no strip. \<open>case GameOver\<close> blanks only a strip whose
  pattern is not \<open>none\<close>, and none is. After the expiry tick, and after two more ticks in
  \<open>GameOver\<close>, the strips are still lit.
\<close>

theorem C8_strips_stay_lit:
  "map_option puzzleState
     (loop Update_not_due (sense LOW LOW poll_correct late_clock) solved_example)
     = Some GameOver
   \<and> map_option beakerDoor_out
     (loop Update_not_due (sense LOW LOW poll_correct late_clock) solved_example)
     = Some LOW
   \<and> map_option all_extinguished
     (loop Update_not_due (sense LOW LOW poll_correct late_clock) solved_example)
     = Some False
   \<and> map_option puzzleState
     (run Update_not_due (replicate 3 (sense LOW LOW poll_correct late_clock)) solved_example)
     = Some GameOver
   \<and> map_option all_extinguished
     (run Update_not_due (replicate 3 (sense LOW LOW poll_correct late_clock)) solved_example)
     = Some False
   \<and> map_option beaker_strip
     (run Update_not_due (replicate 3 (sense LOW LOW poll_correct late_clock)) solved_example)
     = Some (none, Color 0 255 0)"
  by (simp add: solved_example_def solve_ticks_def solve_clock_def late_clock_def
      all_extinguished_def extinguished_def beaker_strip_def numeral_3_eq_3
      list_all_iff set_replicate_conv_if case_defs example_defs prim_defs)

end
